theory Spec2Isabelle
  imports Main "HOL-Library.Multiset"
begin

section \<open>The computation graph of package ag (pkg/ml/ag/graph.go)\<close>

text \<open>
  The arena of the graph is the slice \<open>nodes\<close>; a node's identity is its index there.
  Every constructor runs its whole critical section (issuing the identity, updating the
  depths, appending the record) under the mutex \<open>mu\<close>, so any interleaving of constructor
  calls is a sequence of them; the mutex itself is not part of the state modelled here.
  Identities are \<open>int64\<close> and depths are \<open>int\<close> in the source. Both are modelled as
  unbounded integers: an identity is a length of the arena, and a depth is bounded by it,
  so neither reaches the end of the machine range before the arena exhausts memory.
  A run-time panic inside a constructor is the value \<open>Inl (e, g)\<close>, where \<open>g\<close> is the
  graph as the panic leaves it: the deferred \<open>Unlock\<close> releases the mutex, so a caller that
  recovers from the panic can go on using the graph.
\<close>

subsection \<open>Data\<close>

datatype error = IndexOutOfRange | KernelPanic

text \<open>
  The three payloads, with the fields graph.go sets when it builds them, in the order of
  the source (the back pointer \<open>graph\<close> to the owning graph is left out):
  Variable: id, value, grad, hasGrad, requiresGrad;
  Operator: id, function, value, grad, hasGrad, requiresGrad;
  Wrapper: GradValue, id, wrapGrad.
  \<open>'v\<close> is mat.Matrix, \<open>'f\<close> is fn.Function and \<open>'w\<close> is GradValue, an interface value
  that refers to an object owned outside the graph.
\<close>

datatype ('v, 'f, 'w) Node =
    Variable int 'v "'v option" bool bool
  | Operator int 'f 'v "'v option" bool bool
  | Wrapper 'w int bool

record ('v, 'f, 'w) nodeInfo =
  node :: "('v, 'f, 'w) Node"
  depth :: int
  descendants :: "int list"

record ('v, 'f, 'w) Graph =
  maxId :: int
  maxDepth :: int
  nodes :: "('v, 'f, 'w) nodeInfo list"

text \<open>
  What graph.go calls but does not define: the kernel's \<open>Forward\<close>, which returns the
  operator's value or panics (on a shape mismatch, for instance; the panic is \<open>None\<close>),
  \<open>mat.NewScalar\<close> on a float64 (type \<open>'s\<close>), and what a Wrapper answers to
  \<open>RequiresGrad\<close>, given its GradValue and its flag \<open>wrapGrad\<close>. They are parameters of
  the model.
\<close>

record ('v, 'f, 'w, 's) collaborators =
  Forward :: "'f \<Rightarrow> 'v option"
  mat_NewScalar :: "'s \<Rightarrow> 'v"
  Wrapper_RequiresGrad :: "'w \<Rightarrow> bool \<Rightarrow> bool"

text \<open>
  Modelled from the spec: the method \<open>Id()\<close> of the three payloads is not in graph.go;
  it is the accessor of the identity the node was built with.
\<close>

fun node_Id :: "('v, 'f, 'w) Node \<Rightarrow> int" where
  "node_Id (Variable i v gr hg rg) = i"
| "node_Id (Operator i f v gr hg rg) = i"
| "node_Id (Wrapper w i wg) = i"

text \<open>
  Modelled from the spec: the method \<open>RequiresGrad()\<close> is not in graph.go; for a Variable
  and an Operator it is the flag fixed at creation, for a Wrapper it is left to the
  collaborators.
\<close>

fun RequiresGrad :: "('v, 'f, 'w, 's) collaborators \<Rightarrow> ('v, 'f, 'w) Node \<Rightarrow> bool" where
  "RequiresGrad X (Variable i v gr hg rg) = rg"
| "RequiresGrad X (Operator i f v gr hg rg) = rg"
| "RequiresGrad X (Wrapper w i wg) = Wrapper_RequiresGrad X w wg"

text \<open>Indexing a slice with an int64: out of range is a panic.\<close>

definition index :: "'a list \<Rightarrow> int \<Rightarrow> error + 'a" where
  "index xs i =
     (if 0 \<le> i \<and> i < int (length xs) then Inr (xs ! nat i) else Inl IndexOutOfRange)"

subsection \<open>NewGraph, Reset, newId\<close>

definition NewGraph :: "('v, 'f, 'w) Graph" where
  "NewGraph = \<lparr>maxId = 0, maxDepth = 0, nodes = []\<rparr>"

definition Reset :: "('v, 'f, 'w) Graph \<Rightarrow> ('v, 'f, 'w) Graph" where
  "Reset g = g\<lparr>maxId := 0, maxDepth := 0, nodes := []\<rparr>"

text \<open>\<open>atomic.AddInt64(&g.maxId, 1) - 1\<close>: the old counter is returned, the new one stored.\<close>

definition newId :: "('v, 'f, 'w) Graph \<Rightarrow> int \<times> ('v, 'f, 'w) Graph" where
  "newId g = (maxId g + 1 - 1, g\<lparr>maxId := maxId g + 1\<rparr>)"

subsection \<open>The leaf constructors\<close>

definition NewVariable ::
  "'v \<Rightarrow> bool \<Rightarrow> ('v, 'f, 'w) Graph \<Rightarrow> ('v, 'f, 'w) Node \<times> ('v, 'f, 'w) Graph" where
  "NewVariable val requiresGrad g =
     (case newId g of (new_id, g1) \<Rightarrow>
        let newNode = Variable new_id val None False requiresGrad
        in (newNode,
            g1\<lparr>nodes := nodes g1 @ [\<lparr>node = newNode, depth = 0, descendants = [new_id]\<rparr>]\<rparr>))"

definition NewScalar ::
  "('v, 'f, 'w, 's) collaborators \<Rightarrow> 's \<Rightarrow> ('v, 'f, 'w) Graph \<Rightarrow>
     ('v, 'f, 'w) Node \<times> ('v, 'f, 'w) Graph" where
  "NewScalar X val g = NewVariable (mat_NewScalar X val) False g"

definition NewWrap ::
  "'w \<Rightarrow> ('v, 'f, 'w) Graph \<Rightarrow> ('v, 'f, 'w) Node \<times> ('v, 'f, 'w) Graph" where
  "NewWrap val g =
     (case newId g of (new_id, g1) \<Rightarrow>
        let newNode = Wrapper val new_id True
        in (newNode,
            g1\<lparr>nodes := nodes g1 @ [\<lparr>node = newNode, depth = 0, descendants = [new_id]\<rparr>]\<rparr>))"

definition NewWrapNoGrad ::
  "'w \<Rightarrow> ('v, 'f, 'w) Graph \<Rightarrow> ('v, 'f, 'w) Node \<times> ('v, 'f, 'w) Graph" where
  "NewWrapNoGrad val g =
     (case newId g of (new_id, g1) \<Rightarrow>
        let newNode = Wrapper val new_id False
        in (newNode,
            g1\<lparr>nodes := nodes g1 @ [\<lparr>node = newNode, depth = 0, descendants = [new_id]\<rparr>]\<rparr>))"

subsection \<open>NewOperator\<close>

text \<open>The function \<open>maxDepth(a, b)\<close> of the source; the plain name is the field of the graph.\<close>

definition maxDepth_of :: "int \<Rightarrow> int \<Rightarrow> int" where
  "maxDepth_of a b = (if a > b then a else b)"

fun requireGrad :: "('v, 'f, 'w, 's) collaborators \<Rightarrow> ('v, 'f, 'w) Node list \<Rightarrow> bool" where
  "requireGrad X [] = False"
| "requireGrad X (n # ns) = (if RequiresGrad X n then True else requireGrad X ns)"

fun sumDescendants_from ::
  "('v, 'f, 'w) Graph \<Rightarrow> int \<Rightarrow> ('v, 'f, 'w) Node list \<Rightarrow> error + int" where
  "sumDescendants_from g sm [] = Inr sm"
| "sumDescendants_from g sm (n # ns) =
     (case index (nodes g) (node_Id n) of
        Inl e \<Rightarrow> Inl e
      | Inr ni \<Rightarrow> sumDescendants_from g (sm + int (length (descendants ni))) ns)"

definition sumDescendants :: "('v, 'f, 'w) Graph \<Rightarrow> ('v, 'f, 'w) Node list \<Rightarrow> error + int" where
  "sumDescendants g ns = sumDescendants_from g 0 ns"

text \<open>
  The state of the two nested loops of NewOperator: the slice \<open>mark\<close>, the graph (its
  records are updated in place through their pointers) and the slice \<open>descendants\<close> being
  built.
\<close>

type_synonym ('v, 'f, 'w) marking = "bool list \<times> ('v, 'f, 'w) Graph \<times> int list"

text \<open>A panic, with the graph at that moment (the local slices are lost).\<close>

type_synonym ('v, 'f, 'w) panic = "error \<times> ('v, 'f, 'w) Graph"

text \<open>
  The body of the inner loop, for one \<open>descendantId\<close>. Neither index can be reached
  out of range with a record already changed in this iteration.
\<close>

definition visit ::
  "int \<Rightarrow> ('v, 'f, 'w) marking \<Rightarrow> ('v, 'f, 'w) panic + ('v, 'f, 'w) marking" where
  "visit descendantId s =
     (case s of (mark, g, ds) \<Rightarrow>
        (case index mark descendantId of
           Inl e \<Rightarrow> Inl (e, g)
         | Inr marked \<Rightarrow>
             if \<not> marked then
               (case index (nodes g) descendantId of
                  Inl e \<Rightarrow> Inl (e, g)
                | Inr ni \<Rightarrow>
                    let ni' = ni\<lparr>depth := depth ni + 1\<rparr>;
                        g' = g\<lparr>nodes := (nodes g)[nat descendantId := ni'],
                               maxDepth := maxDepth_of (depth ni') (maxDepth g)\<rparr>
                    in Inr (mark[nat descendantId := True], g', ds @ [descendantId]))
             else Inr s))"

fun visit_all ::
  "int list \<Rightarrow> ('v, 'f, 'w) marking \<Rightarrow> ('v, 'f, 'w) panic + ('v, 'f, 'w) marking" where
  "visit_all [] s = Inr s"
| "visit_all (d # ds) s =
     (case visit d s of Inl p \<Rightarrow> Inl p | Inr s' \<Rightarrow> visit_all ds s')"

text \<open>The outer loop, over the operands.\<close>

fun visit_operands ::
  "('v, 'f, 'w) Node list \<Rightarrow> ('v, 'f, 'w) marking \<Rightarrow>
     ('v, 'f, 'w) panic + ('v, 'f, 'w) marking" where
  "visit_operands [] s = Inr s"
| "visit_operands (opd # os) s =
     (case index (nodes (fst (snd s))) (node_Id opd) of
        Inl e \<Rightarrow> Inl (e, fst (snd s))
      | Inr ni \<Rightarrow>
          (case visit_all (descendants ni) s of
             Inl p \<Rightarrow> Inl p
           | Inr s' \<Rightarrow> visit_operands os s'))"

text \<open>
  \<open>Forward\<close> runs first, outside the lock; then the identity is issued, the capacity of
  the new slice is computed (reading every operand's record), the loops run, and the
  record is appended. A panic of the kernel leaves the graph as it was; a panic of
  \<open>sumDescendants\<close> comes after \<open>newId\<close>, so it leaves the counter advanced and no record
  appended.
\<close>

definition NewOperator ::
  "('v, 'f, 'w, 's) collaborators \<Rightarrow> 'f \<Rightarrow> ('v, 'f, 'w) Node list \<Rightarrow> ('v, 'f, 'w) Graph \<Rightarrow>
     ('v, 'f, 'w) panic + (('v, 'f, 'w) Node \<times> ('v, 'f, 'w) Graph)" where
  "NewOperator X f operands g =
     (case Forward X f of
        None \<Rightarrow> Inl (KernelPanic, g)
      | Some val \<Rightarrow>
          (case newId g of (new_id, g1) \<Rightarrow>
             let newNode = Operator new_id f val None False (requireGrad X operands)
             in (case sumDescendants g1 operands of
                   Inl e \<Rightarrow> Inl (e, g1)
                 | Inr cap \<Rightarrow>
                     (case visit_operands operands
                             (replicate (length (nodes g1)) False, g1, []) of
                        Inl p \<Rightarrow> Inl p
                      | Inr (mark, g2, ds) \<Rightarrow>
                          Inr (newNode,
                               g2\<lparr>nodes := nodes g2 @
                                   [\<lparr>node = newNode, depth = 0,
                                     descendants = ds @ [new_id]\<rparr>]\<rparr>)))))"

subsection \<open>groupNodesByDepth\<close>

text \<open>
  \<open>make([][]Node, g.maxDepth+1)\<close> panics on a negative length, and \<open>out[n.depth]\<close> on a
  depth outside the slice.
\<close>

fun group_from ::
  "('v, 'f, 'w) nodeInfo list \<Rightarrow> ('v, 'f, 'w) Node list list \<Rightarrow>
     error + ('v, 'f, 'w) Node list list" where
  "group_from [] out = Inr out"
| "group_from (n # ns) out =
     (case index out (depth n) of
        Inl e \<Rightarrow> Inl e
      | Inr bucket \<Rightarrow> group_from ns (out[nat (depth n) := bucket @ [node n]]))"

definition groupNodesByDepth :: "('v, 'f, 'w) Graph \<Rightarrow> error + ('v, 'f, 'w) Node list list" where
  "groupNodesByDepth g =
     (if maxDepth g + 1 < 0 then Inl IndexOutOfRange
      else group_from (nodes g) (replicate (nat (maxDepth g + 1)) []))"

subsection \<open>Sequences of constructor calls\<close>

datatype ('v, 'f, 'w, 's) call =
    CallNewVariable 'v bool
  | CallNewScalar 's
  | CallNewOperator 'f "('v, 'f, 'w) Node list"
  | CallNewWrap 'w
  | CallNewWrapNoGrad 'w

fun exec ::
  "('v, 'f, 'w, 's) collaborators \<Rightarrow> ('v, 'f, 'w, 's) call \<Rightarrow> ('v, 'f, 'w) Graph \<Rightarrow>
     ('v, 'f, 'w) panic + (('v, 'f, 'w) Node \<times> ('v, 'f, 'w) Graph)" where
  "exec X (CallNewVariable val rg) g = Inr (NewVariable val rg g)"
| "exec X (CallNewScalar val) g = Inr (NewScalar X val g)"
| "exec X (CallNewOperator f operands) g = NewOperator X f operands g"
| "exec X (CallNewWrap val) g = Inr (NewWrap val g)"
| "exec X (CallNewWrapNoGrad val) g = Inr (NewWrapNoGrad val g)"

text \<open>
  The graph after a sequence of calls, and the nodes the calls returned, when the build
  step ends at the first panic, as the source leaves it to.
\<close>

fun run ::
  "('v, 'f, 'w, 's) collaborators \<Rightarrow> ('v, 'f, 'w, 's) call list \<Rightarrow> ('v, 'f, 'w) Graph \<Rightarrow>
     error + ('v, 'f, 'w) Graph" where
  "run X [] g = Inr g"
| "run X (c # cs) g =
     (case exec X c g of Inl (e, g') \<Rightarrow> Inl e | Inr (n, g') \<Rightarrow> run X cs g')"

fun issued ::
  "('v, 'f, 'w, 's) collaborators \<Rightarrow> ('v, 'f, 'w, 's) call list \<Rightarrow> ('v, 'f, 'w) Graph \<Rightarrow>
     error + ('v, 'f, 'w) Node list" where
  "issued X [] g = Inr []"
| "issued X (c # cs) g =
     (case exec X c g of
        Inl (e, g') \<Rightarrow> Inl e
      | Inr (n, g') \<Rightarrow> (case issued X cs g' of Inl e \<Rightarrow> Inl e | Inr ns \<Rightarrow> Inr (n # ns)))"


section \<open>Invariants of the arena\<close>

subsection \<open>Auxiliary notions\<close>

text \<open>A record with its depth incremented, and an identity that indexes the arena.\<close>

definition bump :: "('v, 'f, 'w) nodeInfo \<Rightarrow> ('v, 'f, 'w) nodeInfo" where
  "bump ni = ni\<lparr>depth := depth ni + 1\<rparr>"

definition in_arena :: "('v, 'f, 'w) Graph \<Rightarrow> int \<Rightarrow> bool" where
  "in_arena g i = (0 \<le> i \<and> i < int (length (nodes g)))"

definition bumped_depths :: "('v, 'f, 'w) Graph \<Rightarrow> int set \<Rightarrow> int set" where
  "bumped_depths g U = (\<lambda>d. depth (nodes g ! nat d) + 1) ` U"

text \<open>
  The invariant of the two loops, relative to the graph \<open>g0\<close> they started from: the slice
  being built has no duplicates and holds identities of the arena; \<open>mark\<close> is true exactly
  at those identities; exactly their records have been incremented, once; \<open>maxDepth\<close> is
  the maximum of its first value and of the incremented depths.
\<close>

definition marking_ok :: "('v, 'f, 'w) Graph \<Rightarrow> ('v, 'f, 'w) marking \<Rightarrow> bool" where
  "marking_ok g0 s =
     (case s of (mark, g, ds) \<Rightarrow>
        length mark = length (nodes g0) \<and> length (nodes g) = length (nodes g0) \<and>
        maxId g = maxId g0 \<and> distinct ds \<and> (\<forall>d \<in> set ds. in_arena g0 d) \<and>
        (\<forall>i < length (nodes g0).
           mark ! i = (int i \<in> set ds) \<and>
           nodes g ! i = (if int i \<in> set ds then bump (nodes g0 ! i) else nodes g0 ! i)) \<and>
        maxDepth g = Max (insert (maxDepth g0) (bumped_depths g0 (set ds))))"

definition descendants_in_arena :: "('v, 'f, 'w) Graph \<Rightarrow> bool" where
  "descendants_in_arena g =
     (\<forall>i < length (nodes g). \<forall>d \<in> set (descendants (nodes g ! i)). in_arena g d)"

text \<open>The union of the operands' \<open>descendants\<close>, as a set.\<close>

definition operand_closure :: "('v, 'f, 'w) Graph \<Rightarrow> ('v, 'f, 'w) Node list \<Rightarrow> int set" where
  "operand_closure g operands =
     (\<Union>a \<in> set operands. set (descendants (nodes g ! nat (node_Id a))))"

text \<open>
  What one constructor call does to a graph: the records whose identities are in \<open>U\<close> are
  incremented, and a record for the node \<open>n\<close> is appended, with depth 0 and with
  \<open>descendants\<close> made of \<open>U\<close> and the new identity. A leaf constructor has \<open>U\<close> empty.
\<close>

definition grown ::
  "('v, 'f, 'w) Graph \<Rightarrow> int set \<Rightarrow> ('v, 'f, 'w) Node \<Rightarrow> ('v, 'f, 'w) Graph \<Rightarrow> bool" where
  "grown g U n g' =
     (maxId g' = maxId g + 1 \<and>
      maxDepth g' = Max (insert (maxDepth g) (bumped_depths g U)) \<and>
      length (nodes g') = length (nodes g) + 1 \<and>
      (\<forall>i < length (nodes g).
         nodes g' ! i = (if int i \<in> U then bump (nodes g ! i) else nodes g ! i)) \<and>
      node (nodes g' ! length (nodes g)) = n \<and> node_Id n = maxId g \<and>
      depth (nodes g' ! length (nodes g)) = 0 \<and>
      distinct (descendants (nodes g' ! length (nodes g))) \<and>
      set (descendants (nodes g' ! length (nodes g))) = insert (maxId g) U)"

fun operands_of :: "('v, 'f, 'w, 's) call \<Rightarrow> ('v, 'f, 'w) Node list" where
  "operands_of (CallNewOperator f operands) = operands"
| "operands_of c = []"

text \<open>
  The invariant of reachable graphs: identities are indices; every \<open>descendants\<close> is
  closed, without duplicates, bounded by its own index, which it contains; the depth of a
  record is the number of later records that have it among their \<open>descendants\<close>;
  \<open>maxDepth\<close> bounds the depths and is attained (or is 0).
\<close>

definition ids_ok :: "('v, 'f, 'w) Graph \<Rightarrow> bool" where
  "ids_ok g =
     (maxId g = int (length (nodes g)) \<and>
      (\<forall>i < length (nodes g). node_Id (node (nodes g ! i)) = int i))"

definition closure_ok :: "('v, 'f, 'w) Graph \<Rightarrow> bool" where
  "closure_ok g =
     (\<forall>i < length (nodes g).
        distinct (descendants (nodes g ! i)) \<and> int i \<in> set (descendants (nodes g ! i)) \<and>
        (\<forall>d \<in> set (descendants (nodes g ! i)).
           0 \<le> d \<and> d \<le> int i \<and>
           set (descendants (nodes g ! nat d)) \<subseteq> set (descendants (nodes g ! i))))"

definition consumer_set :: "('v, 'f, 'w) Graph \<Rightarrow> nat \<Rightarrow> nat set" where
  "consumer_set g i =
     {j. j < length (nodes g) \<and> j \<noteq> i \<and> int i \<in> set (descendants (nodes g ! j))}"

definition depth_counts :: "('v, 'f, 'w) Graph \<Rightarrow> bool" where
  "depth_counts g =
     (\<forall>i < length (nodes g). depth (nodes g ! i) = int (card (consumer_set g i)))"

definition maxDepth_ok :: "('v, 'f, 'w) Graph \<Rightarrow> bool" where
  "maxDepth_ok g =
     (0 \<le> maxDepth g \<and> (\<forall>i < length (nodes g). depth (nodes g ! i) \<le> maxDepth g) \<and>
      (maxDepth g = 0 \<or> (\<exists>k < length (nodes g). depth (nodes g ! k) = maxDepth g)))"

definition graph_ok :: "('v, 'f, 'w) Graph \<Rightarrow> bool" where
  "graph_ok g = (ids_ok g \<and> closure_ok g \<and> depth_counts g \<and> maxDepth_ok g)"

definition closed_in :: "('v, 'f, 'w) Graph \<Rightarrow> int set \<Rightarrow> bool" where
  "closed_in g U =
     (\<forall>d \<in> U. in_arena g d \<and> set (descendants (nodes g ! nat d)) \<subseteq> U)"

text \<open>
  How the arena reflects the calls that built it: the record at index \<open>i\<close> was built by
  the call at position \<open>i\<close>, from operands with earlier identities, and its
  \<open>descendants\<close> are its own identity and its operands' \<open>descendants\<close>.
\<close>

definition trace_ok :: "('v, 'f, 'w, 's) call list \<Rightarrow> ('v, 'f, 'w) Graph \<Rightarrow> bool" where
  "trace_ok cs g =
     (length (nodes g) = length cs \<and>
      (\<forall>i < length cs.
         (\<forall>a \<in> set (operands_of (cs ! i)). 0 \<le> node_Id a \<and> node_Id a < int i) \<and>
         set (descendants (nodes g ! i)) =
           insert (int i) (operand_closure g (operands_of (cs ! i)))))"

text \<open>
  The operator built by call \<open>j\<close> consumes the node \<open>n\<close> when \<open>n\<close> is one of its operands,
  or is consumed by one of its operands.
\<close>

inductive consumes :: "('v, 'f, 'w, 's) call list \<Rightarrow> nat \<Rightarrow> nat \<Rightarrow> bool"
  for cs :: "('v, 'f, 'w, 's) call list" where
  direct: "j < length cs \<Longrightarrow> a \<in> set (operands_of (cs ! j)) \<Longrightarrow> node_Id a = int n \<Longrightarrow>
           consumes cs j n"
| transitive: "j < length cs \<Longrightarrow> a \<in> set (operands_of (cs ! j)) \<Longrightarrow> node_Id a = int m \<Longrightarrow>
           consumes cs m n \<Longrightarrow> consumes cs j n"

text \<open>What a constructor leaves alone, whatever the graph it is given.\<close>

definition only_deeper :: "('v, 'f, 'w) Graph \<Rightarrow> ('v, 'f, 'w) Graph \<Rightarrow> bool" where
  "only_deeper g g' =
     (length (nodes g) \<le> length (nodes g') \<and>
      (\<forall>i < length (nodes g).
         node (nodes g' ! i) = node (nodes g ! i) \<and>
         descendants (nodes g' ! i) = descendants (nodes g ! i) \<and>
         depth (nodes g ! i) \<le> depth (nodes g' ! i)))"

text \<open>
  Objects owned outside the graph (a shared parameter, say), to which a Wrapper node refers
  through its GradValue. \<open>Reset\<close> assigns the three fields of its receiver and nothing else,
  so on a state made of the graph and of those objects it changes the graph only.
\<close>

record ('v, 'f, 'w, 'e) world =
  graph :: "('v, 'f, 'w) Graph"
  externals :: "'w \<Rightarrow> 'e"

definition Reset_in :: "('v, 'f, 'w, 'e) world \<Rightarrow> ('v, 'f, 'w, 'e) world" where
  "Reset_in w = w\<lparr>graph := Reset (graph w)\<rparr>"

text \<open>A small instance, used to exercise the theorems: the diamond c = f(a, b), d = g(a, c).\<close>

definition plain_kernels :: "(nat, nat, nat, nat) collaborators" where
  "plain_kernels =
     \<lparr>Forward = (\<lambda>f. Some f), mat_NewScalar = (\<lambda>s. s), Wrapper_RequiresGrad = (\<lambda>w b. b)\<rparr>"

definition node_a :: "(nat, nat, nat) Node" where
  "node_a = Variable 0 1 None False True"

definition node_b :: "(nat, nat, nat) Node" where
  "node_b = Variable 1 2 None False False"

definition node_c :: "(nat, nat, nat) Node" where
  "node_c = Operator 2 7 7 None False True"

definition node_d :: "(nat, nat, nat) Node" where
  "node_d = Operator 3 8 8 None False True"

definition diamond :: "(nat, nat, nat, nat) call list" where
  "diamond =
     [CallNewVariable 1 True,
      CallNewVariable 2 False,
      CallNewOperator 7 [node_a, node_b],
      CallNewOperator 8 [node_a, node_c]]"

definition diamond_graph :: "(nat, nat, nat) Graph" where
  "diamond_graph =
     \<lparr>maxId = 4, maxDepth = 2,
      nodes =
        [\<lparr>node = node_a, depth = 2, descendants = [0]\<rparr>,
         \<lparr>node = node_b, depth = 2, descendants = [1]\<rparr>,
         \<lparr>node = node_c, depth = 1, descendants = [0, 1, 2]\<rparr>,
         \<lparr>node = node_d, depth = 0, descendants = [0, 1, 2, 3]\<rparr>]\<rparr>"



subsection \<open>The loops of NewOperator\<close>

lemma index_in: "0 \<le> i \<Longrightarrow> i < int (length xs) \<Longrightarrow> index xs i = Inr (xs ! nat i)"
  by (simp add: index_def)

lemma index_Inl: "index xs i = Inl e \<Longrightarrow> e = IndexOutOfRange \<and> \<not> (0 \<le> i \<and> i < int (length xs))"
  by (auto simp: index_def split: if_splits)

lemma index_Inr: "index xs i = Inr x \<Longrightarrow> 0 \<le> i \<and> i < int (length xs) \<and> x = xs ! nat i"
  by (auto simp: index_def split: if_splits)

lemma maxDepth_of_max: "maxDepth_of a b = max a b"
  by (simp add: maxDepth_of_def max_def)

lemma marking_ok_init: "marking_ok g (replicate (length (nodes g)) False, g, [])"
  by (simp add: marking_ok_def bumped_depths_def)

lemma visit_marked:
  assumes "marking_ok g0 (mark, g, ds)" "d \<in> set ds"
  shows "visit d (mark, g, ds) = Inr (mark, g, ds)"
proof -
  from assms have r: "0 \<le> d" "d < int (length mark)" and m: "mark ! nat d"
    by (auto simp: marking_ok_def in_arena_def)
  show ?thesis using r m by (simp add: visit_def index_in)
qed

lemma visit_fresh:
  assumes ok: "marking_ok g0 (mark, g, ds)" and d: "in_arena g0 d" and new: "d \<notin> set ds"
  shows "\<exists>mark' g'. visit d (mark, g, ds) = Inr (mark', g', ds @ [d]) \<and>
           marking_ok g0 (mark', g', ds @ [d])"
proof -
  let ?n = "length (nodes g0)"
  from ok have len: "length mark = ?n" "length (nodes g) = ?n"
    and mid: "maxId g = maxId g0" and dist: "distinct ds"
    and rng: "\<forall>e \<in> set ds. in_arena g0 e"
    and pt: "\<forall>i < ?n. mark ! i = (int i \<in> set ds) \<and>
               nodes g ! i = (if int i \<in> set ds then bump (nodes g0 ! i) else nodes g0 ! i)"
    and mx: "maxDepth g = Max (insert (maxDepth g0) (bumped_depths g0 (set ds)))"
    by (auto simp: marking_ok_def)
  from d have d0: "0 \<le> d" and dn: "nat d < ?n" by (auto simp: in_arena_def)
  from pt dn new d0 have unm: "\<not> mark ! nat d" and same: "nodes g ! nat d = nodes g0 ! nat d"
    by auto
  define ni' where "ni' = bump (nodes g0 ! nat d)"
  define g' where "g' = g\<lparr>nodes := (nodes g)[nat d := ni'],
                          maxDepth := maxDepth_of (depth ni') (maxDepth g)\<rparr>"
  define mark' where "mark' = mark[nat d := True]"
  have v: "visit d (mark, g, ds) = Inr (mark', g', ds @ [d])"
    using d0 dn len unm same
    by (simp add: visit_def index_in Let_def g'_def mark'_def ni'_def bump_def)
  have fin: "finite (bumped_depths g0 (set ds))" by (simp add: bumped_depths_def)
  have bd: "bumped_depths g0 (set (ds @ [d])) = insert (depth ni') (bumped_depths g0 (set ds))"
    by (auto simp: bumped_depths_def ni'_def bump_def)
  have mx': "maxDepth g' = Max (insert (maxDepth g0) (bumped_depths g0 (set (ds @ [d]))))"
  proof -
    have "maxDepth g' = max (depth ni') (Max (insert (maxDepth g0) (bumped_depths g0 (set ds))))"
      by (simp add: g'_def maxDepth_of_max mx)
    also have "\<dots> = Max (insert (depth ni') (insert (maxDepth g0) (bumped_depths g0 (set ds))))"
      using fin by simp
    also have "\<dots> = Max (insert (maxDepth g0) (bumped_depths g0 (set (ds @ [d]))))"
      by (subst bd) (simp add: insert_commute)
    finally show ?thesis .
  qed
  have pt': "\<forall>i < ?n. mark' ! i = (int i \<in> set (ds @ [d])) \<and>
               nodes g' ! i = (if int i \<in> set (ds @ [d]) then bump (nodes g0 ! i) else nodes g0 ! i)"
  proof (intro allI impI)
    fix i assume i: "i < ?n"
    show "mark' ! i = (int i \<in> set (ds @ [d])) \<and>
               nodes g' ! i = (if int i \<in> set (ds @ [d]) then bump (nodes g0 ! i) else nodes g0 ! i)"
    proof (cases "i = nat d")
      case True
      then have "int i = d" using d0 by simp
      then show ?thesis using True i len by (simp add: mark'_def g'_def ni'_def)
    next
      case False
      then have "int i \<noteq> d" by auto
      then show ?thesis using False i len pt by (simp add: mark'_def g'_def)
    qed
  qed
  have "marking_ok g0 (mark', g', ds @ [d])"
    unfolding marking_ok_def using len mid dist rng d new pt' mx'
    by (simp add: mark'_def g'_def)
  with v show ?thesis by blast
qed

lemma visit_ok:
  assumes ok: "marking_ok g0 (mark, g, ds)" and d: "in_arena g0 d"
  shows "\<exists>mark' g' ds'. visit d (mark, g, ds) = Inr (mark', g', ds') \<and>
           marking_ok g0 (mark', g', ds') \<and> set ds' = insert d (set ds)"
proof (cases "d \<in> set ds")
  case True
  with visit_marked [OF ok True] ok show ?thesis by auto
next
  case False
  from visit_fresh [OF ok d False] show ?thesis by auto
qed

lemma visit_all_ok:
  assumes "marking_ok g0 (mark, g, ds)" and "\<forall>d \<in> set xs. in_arena g0 d"
  shows "\<exists>mark' g' ds'. visit_all xs (mark, g, ds) = Inr (mark', g', ds') \<and>
           marking_ok g0 (mark', g', ds') \<and> set ds' = set ds \<union> set xs"
  using assms
proof (induction xs arbitrary: mark g ds)
  case Nil
  then show ?case by simp
next
  case (Cons x xs)
  from Cons.prems have x: "in_arena g0 x" and xs: "\<forall>d \<in> set xs. in_arena g0 d" by auto
  from visit_ok [OF Cons.prems(1) x] obtain m1 g1 ds1
    where v: "visit x (mark, g, ds) = Inr (m1, g1, ds1)"
      and ok1: "marking_ok g0 (m1, g1, ds1)" and s1: "set ds1 = insert x (set ds)"
    by blast
  from Cons.IH [OF ok1 xs] obtain m2 g2 ds2
    where v2: "visit_all xs (m1, g1, ds1) = Inr (m2, g2, ds2)"
      and ok2: "marking_ok g0 (m2, g2, ds2)" and s2: "set ds2 = set ds1 \<union> set xs"
    by blast
  have "visit_all (x # xs) (mark, g, ds) = Inr (m2, g2, ds2)" using v v2 by simp
  moreover have "set ds2 = set ds \<union> set (x # xs)" using s1 s2 by auto
  ultimately show ?case using ok2 by blast
qed

lemma marking_ok_descendants:
  assumes "marking_ok g0 (mark, g, ds)" "i < length (nodes g0)"
  shows "descendants (nodes g ! i) = descendants (nodes g0 ! i)"
  using assms by (auto simp: marking_ok_def bump_def)

lemma visit_operands_ok:
  assumes "marking_ok g0 (mark, g, ds)" and "descendants_in_arena g0"
    and "\<forall>a \<in> set os. in_arena g0 (node_Id a)"
  shows "\<exists>mark' g' ds'. visit_operands os (mark, g, ds) = Inr (mark', g', ds') \<and>
           marking_ok g0 (mark', g', ds') \<and> set ds' = set ds \<union> operand_closure g0 os"
  using assms
proof (induction os arbitrary: mark g ds)
  case Nil
  then show ?case by (simp add: operand_closure_def)
next
  case (Cons a os)
  let ?k = "nat (node_Id a)"
  from Cons.prems have a: "in_arena g0 (node_Id a)"
    and os: "\<forall>b \<in> set os. in_arena g0 (node_Id b)" by auto
  from a have k: "?k < length (nodes g0)" and a0: "0 \<le> node_Id a"
    by (auto simp: in_arena_def)
  from Cons.prems(1) have len: "length (nodes g) = length (nodes g0)"
    by (simp add: marking_ok_def)
  have idx: "index (nodes g) (node_Id a) = Inr (nodes g ! ?k)"
    using a len by (simp add: index_in in_arena_def)
  have same: "descendants (nodes g ! ?k) = descendants (nodes g0 ! ?k)"
    by (rule marking_ok_descendants [OF Cons.prems(1) k])
  have rng: "\<forall>d \<in> set (descendants (nodes g0 ! ?k)). in_arena g0 d"
    using Cons.prems(2) k by (simp add: descendants_in_arena_def)
  from visit_all_ok [OF Cons.prems(1) rng] obtain m1 g1 ds1
    where v: "visit_all (descendants (nodes g0 ! ?k)) (mark, g, ds) = Inr (m1, g1, ds1)"
      and ok1: "marking_ok g0 (m1, g1, ds1)"
      and s1: "set ds1 = set ds \<union> set (descendants (nodes g0 ! ?k))"
    by blast
  from Cons.IH [OF ok1 Cons.prems(2) os] obtain m2 g2 ds2
    where v2: "visit_operands os (m1, g1, ds1) = Inr (m2, g2, ds2)"
      and ok2: "marking_ok g0 (m2, g2, ds2)"
      and s2: "set ds2 = set ds1 \<union> operand_closure g0 os"
    by blast
  have "visit_operands (a # os) (mark, g, ds) = Inr (m2, g2, ds2)"
    using idx same v v2 by simp
  moreover have "set ds2 = set ds \<union> operand_closure g0 (a # os)"
    using s1 s2 by (auto simp: operand_closure_def)
  ultimately show ?case using ok2 by blast
qed

lemma sumDescendants_from_ok:
  "\<forall>a \<in> set os. in_arena g (node_Id a) \<Longrightarrow> \<exists>c. sumDescendants_from g sm os = Inr c"
  by (induction os arbitrary: sm) (auto simp: index_in in_arena_def)

lemma sumDescendants_from_Inl:
  "\<exists>a \<in> set os. \<not> in_arena g (node_Id a) \<Longrightarrow> sumDescendants_from g sm os = Inl IndexOutOfRange"
proof (induction os arbitrary: sm)
  case Nil
  then show ?case by simp
next
  case (Cons a os)
  show ?case
  proof (cases "in_arena g (node_Id a)")
    case True
    with Cons.prems have "\<exists>b \<in> set os. \<not> in_arena g (node_Id b)" by auto
    from Cons.IH [OF this] True show ?thesis by (simp add: index_in in_arena_def)
  next
    case False
    then show ?thesis by (auto simp: index_def in_arena_def)
  qed
qed

lemma requireGrad_iff: "requireGrad X ns = (\<exists>n \<in> set ns. RequiresGrad X n)"
  by (induction ns) auto

lemma NewOperator_grown:
  fixes g :: "('v, 'f, 'w) Graph"
  assumes wid: "maxId g = int (length (nodes g))" and dia: "descendants_in_arena g"
    and ops: "\<forall>a \<in> set operands. in_arena g (node_Id a)"
    and fw: "Forward X f = Some v"
  shows "\<exists>g'. NewOperator X f operands g =
                 Inr (Operator (maxId g) f v None False (requireGrad X operands), g') \<and>
              grown g (operand_closure g operands)
                (Operator (maxId g) f v None False (requireGrad X operands)) g'"
proof -
  define g1 where "g1 = g\<lparr>maxId := maxId g + 1\<rparr>"
  define n :: "('v, 'f, 'w) Node"
    where "n = Operator (maxId g) f v None False (requireGrad X operands)"
  have n1: "nodes g1 = nodes g" by (simp add: g1_def)
  have m1: "maxId g1 = maxId g + 1" "maxDepth g1 = maxDepth g" by (simp_all add: g1_def)
  have dia1: "descendants_in_arena g1"
    using dia by (simp add: descendants_in_arena_def in_arena_def n1)
  have ops1: "\<forall>a \<in> set operands. in_arena g1 (node_Id a)"
    using ops by (simp add: in_arena_def n1)
  from sumDescendants_from_ok [OF ops1] obtain c where c: "sumDescendants g1 operands = Inr c"
    unfolding sumDescendants_def by blast
  from visit_operands_ok [OF marking_ok_init dia1 ops1] obtain m2 g2 ds
    where vo: "visit_operands operands (replicate (length (nodes g1)) False, g1, []) =
                 Inr (m2, g2, ds)"
      and ok: "marking_ok g1 (m2, g2, ds)"
      and sd: "set ds = set [] \<union> operand_closure g1 operands"
    by blast
  define g' where "g' = g2\<lparr>nodes := nodes g2 @
                           [\<lparr>node = n, depth = 0, descendants = ds @ [maxId g]\<rparr>]\<rparr>"
  have res: "NewOperator X f operands g = Inr (n, g')"
    using fw c vo
    by (simp add: NewOperator_def newId_def Let_def g1_def [symmetric] n_def g'_def)
  have oc: "operand_closure g1 operands = operand_closure g operands"
    by (simp add: operand_closure_def n1)
  have bd: "bumped_depths g1 (set ds) = bumped_depths g (set ds)"
    by (simp add: bumped_depths_def n1)
  from ok have len2: "length (nodes g2) = length (nodes g)"
    and mid: "maxId g2 = maxId g + 1" and dist: "distinct ds"
    and rng: "\<forall>d \<in> set ds. in_arena g d"
    and pt: "\<forall>i < length (nodes g).
               nodes g2 ! i = (if int i \<in> set ds then bump (nodes g ! i) else nodes g ! i)"
    and mx: "maxDepth g2 = Max (insert (maxDepth g) (bumped_depths g (set ds)))"
    using n1 bd m1 by (auto simp: marking_ok_def in_arena_def)
  have notin: "maxId g \<notin> set ds" using rng wid by (auto simp: in_arena_def)
  have U: "set ds = operand_closure g operands" using sd oc by simp
  have "grown g (operand_closure g operands) n g'"
    unfolding grown_def using len2 mid dist pt mx notin U
    by (simp add: g'_def nth_append n_def)
  with res show ?thesis unfolding n_def by blast
qed

lemma NewOperator_Inr_operands:
  assumes "NewOperator X f operands g = Inr r"
  shows "\<forall>a \<in> set operands. in_arena g (node_Id a)"
proof (rule ccontr)
  assume "\<not> (\<forall>a \<in> set operands. in_arena g (node_Id a))"
  then have "\<exists>a \<in> set operands. \<not> in_arena (g\<lparr>maxId := maxId g + 1\<rparr>) (node_Id a)"
    by (simp add: in_arena_def)
  from sumDescendants_from_Inl [OF this]
  have "sumDescendants (g\<lparr>maxId := maxId g + 1\<rparr>) operands = Inl IndexOutOfRange"
    by (simp add: sumDescendants_def)
  then have "\<exists>e. NewOperator X f operands g = Inl e"
    by (simp add: NewOperator_def newId_def Let_def split: sum.splits option.splits)
  with assms show False by auto
qed

lemma NewOperator_Inr_Forward:
  "NewOperator X f operands g = Inr r \<Longrightarrow> \<exists>v. Forward X f = Some v"
  by (simp add: NewOperator_def split: option.splits)

lemma bumped_depths_empty: "bumped_depths g {} = {}"
  by (simp add: bumped_depths_def)

lemma NewVariable_grown:
  "NewVariable val rg g = (n, g') \<Longrightarrow> grown g {} n g'"
  by (auto simp: NewVariable_def newId_def Let_def grown_def bumped_depths_empty nth_append)

lemma NewWrap_grown:
  "NewWrap val g = (n, g') \<Longrightarrow> grown g {} n g'"
  by (auto simp: NewWrap_def newId_def Let_def grown_def bumped_depths_empty nth_append)

lemma NewWrapNoGrad_grown:
  "NewWrapNoGrad val g = (n, g') \<Longrightarrow> grown g {} n g'"
  by (auto simp: NewWrapNoGrad_def newId_def Let_def grown_def bumped_depths_empty nth_append)

lemma exec_grown:
  assumes wid: "maxId g = int (length (nodes g))" and dia: "descendants_in_arena g"
    and ex: "exec X c g = Inr (n, g')"
  shows "grown g (operand_closure g (operands_of c)) n g' \<and>
         (\<forall>a \<in> set (operands_of c). in_arena g (node_Id a))"
proof (cases c)
  case (CallNewOperator f operands)
  with ex have no: "NewOperator X f operands g = Inr (n, g')" by simp
  from NewOperator_Inr_operands [OF no]
  have ops: "\<forall>a \<in> set operands. in_arena g (node_Id a)" .
  from NewOperator_Inr_Forward [OF no] obtain v where fw: "Forward X f = Some v" by blast
  from NewOperator_grown [OF wid dia ops fw] no show ?thesis
    using CallNewOperator ops by auto
next
  case (CallNewVariable val rg)
  with ex show ?thesis by (simp add: NewVariable_grown operand_closure_def)
next
  case (CallNewScalar val)
  with ex show ?thesis by (simp add: NewScalar_def NewVariable_grown operand_closure_def)
next
  case (CallNewWrap val)
  with ex show ?thesis by (simp add: NewWrap_grown operand_closure_def)
next
  case (CallNewWrapNoGrad val)
  with ex show ?thesis by (simp add: NewWrapNoGrad_grown operand_closure_def)
qed

subsection \<open>The invariant is preserved\<close>

lemma closure_okD:
  assumes "closure_ok g" "j < length (nodes g)" "d \<in> set (descendants (nodes g ! j))"
  shows "0 \<le> d" and "d \<le> int j"
    and "set (descendants (nodes g ! nat d)) \<subseteq> set (descendants (nodes g ! j))"
  using assms unfolding closure_ok_def by blast+

lemma closure_ok_self:
  "closure_ok g \<Longrightarrow> j < length (nodes g) \<Longrightarrow> int j \<in> set (descendants (nodes g ! j))"
  unfolding closure_ok_def by blast

lemma closure_ok_in_arena: "closure_ok g \<Longrightarrow> descendants_in_arena g"
  unfolding closure_ok_def descendants_in_arena_def in_arena_def
  by (metis of_nat_less_iff order_le_less_trans)

lemma operand_closure_closed:
  assumes c: "closure_ok g" and ops: "\<forall>a \<in> set operands. in_arena g (node_Id a)"
  shows "closed_in g (operand_closure g operands)"
  unfolding closed_in_def
proof (intro ballI conjI)
  fix d assume "d \<in> operand_closure g operands"
  then obtain a where a: "a \<in> set operands"
    and d: "d \<in> set (descendants (nodes g ! nat (node_Id a)))"
    by (auto simp: operand_closure_def)
  from ops a have k: "nat (node_Id a) < length (nodes g)" and a0: "0 \<le> node_Id a"
    by (auto simp: in_arena_def)
  from c k d have d0: "0 \<le> d" and dle: "d \<le> int (nat (node_Id a))"
    and sub: "set (descendants (nodes g ! nat d)) \<subseteq> set (descendants (nodes g ! nat (node_Id a)))"
    unfolding closure_ok_def by blast+
  from d0 dle k show "in_arena g d" unfolding in_arena_def by linarith
  from sub a show "set (descendants (nodes g ! nat d)) \<subseteq> operand_closure g operands"
    by (auto simp: operand_closure_def)
qed

lemma grown_old:
  assumes "grown g U n g'" "i < length (nodes g)"
  shows "node (nodes g' ! i) = node (nodes g ! i)"
    and "descendants (nodes g' ! i) = descendants (nodes g ! i)"
    and "depth (nodes g' ! i) = depth (nodes g ! i) + (if int i \<in> U then 1 else 0)"
  using assms by (auto simp: grown_def bump_def)

lemma grown_ids_ok:
  assumes "grown g U n g'" "ids_ok g"
  shows "ids_ok g'"
  unfolding ids_ok_def
proof (intro conjI allI impI)
  from assms show "maxId g' = int (length (nodes g'))" by (simp add: grown_def ids_ok_def)
next
  fix i assume "i < length (nodes g')"
  with assms(1) have "i < length (nodes g) \<or> i = length (nodes g)" by (auto simp: grown_def)
  then show "node_Id (node (nodes g' ! i)) = int i"
  proof
    assume "i < length (nodes g)"
    with assms grown_old(1) [OF assms(1)] show ?thesis by (simp add: ids_ok_def)
  next
    assume "i = length (nodes g)"
    with assms show ?thesis by (simp add: grown_def ids_ok_def)
  qed
qed

lemma grown_closure_ok:
  assumes gr: "grown g U n g'" and wid: "maxId g = int (length (nodes g))"
    and c: "closure_ok g" and cl: "closed_in g U"
  shows "closure_ok g'"
  unfolding closure_ok_def
proof (intro allI impI)
  fix i assume "i < length (nodes g')"
  with gr have "i < length (nodes g) \<or> i = length (nodes g)" by (auto simp: grown_def)
  then show "distinct (descendants (nodes g' ! i)) \<and> int i \<in> set (descendants (nodes g' ! i)) \<and>
        (\<forall>d \<in> set (descendants (nodes g' ! i)).
           0 \<le> d \<and> d \<le> int i \<and>
           set (descendants (nodes g' ! nat d)) \<subseteq> set (descendants (nodes g' ! i)))"
  proof
    assume i: "i < length (nodes g)"
    have same: "descendants (nodes g' ! i) = descendants (nodes g ! i)"
      by (rule grown_old(2) [OF gr i])
    from c i have d1: "distinct (descendants (nodes g ! i))"
      and d2: "int i \<in> set (descendants (nodes g ! i))"
      and d3: "\<forall>d \<in> set (descendants (nodes g ! i)).
           0 \<le> d \<and> d \<le> int i \<and>
           set (descendants (nodes g ! nat d)) \<subseteq> set (descendants (nodes g ! i))"
      unfolding closure_ok_def by blast+
    have "\<forall>d \<in> set (descendants (nodes g ! i)).
            descendants (nodes g' ! nat d) = descendants (nodes g ! nat d)"
    proof
      fix d assume "d \<in> set (descendants (nodes g ! i))"
      with d3 have "0 \<le> d" "d \<le> int i" by auto
      with i have "nat d < length (nodes g)" by simp
      then show "descendants (nodes g' ! nat d) = descendants (nodes g ! nat d)"
        by (rule grown_old(2) [OF gr])
    qed
    with d1 d2 d3 same show ?thesis by simp
  next
    assume i: "i = length (nodes g)"
    from gr i wid have dn: "distinct (descendants (nodes g' ! i))"
      and sn: "set (descendants (nodes g' ! i)) = insert (int i) U"
      by (simp_all add: grown_def)
    have "\<forall>d \<in> insert (int i) U. 0 \<le> d \<and> d \<le> int i \<and>
            set (descendants (nodes g' ! nat d)) \<subseteq> insert (int i) U"
    proof
      fix d assume "d \<in> insert (int i) U"
      then show "0 \<le> d \<and> d \<le> int i \<and>
            set (descendants (nodes g' ! nat d)) \<subseteq> insert (int i) U"
      proof
        assume "d = int i"
        then show ?thesis using sn by simp
      next
        assume dU: "d \<in> U"
        with cl have ar: "in_arena g d"
          and sub: "set (descendants (nodes g ! nat d)) \<subseteq> U"
          by (auto simp: closed_in_def)
        from ar have lt: "nat d < length (nodes g)" and d0: "0 \<le> d"
          by (auto simp: in_arena_def)
        have "descendants (nodes g' ! nat d) = descendants (nodes g ! nat d)"
          by (rule grown_old(2) [OF gr lt])
        with sub lt d0 i show ?thesis by auto
      qed
    qed
    with dn sn show ?thesis by simp
  qed
qed

lemma finite_consumer_set: "finite (consumer_set g i)"
  by (simp add: consumer_set_def)

lemma consumer_set_bound: "j \<in> consumer_set g i \<Longrightarrow> j < length (nodes g)"
  by (simp add: consumer_set_def)

lemma grown_consumer_set_old:
  assumes gr: "grown g U n g'" and wid: "maxId g = int (length (nodes g))"
    and i: "i < length (nodes g)"
  shows "consumer_set g' i =
           consumer_set g i \<union> (if int i \<in> U then {length (nodes g)} else {})"
proof -
  have len: "length (nodes g') = Suc (length (nodes g))" using gr by (simp add: grown_def)
  have new: "set (descendants (nodes g' ! length (nodes g))) = insert (int (length (nodes g))) U"
    using gr wid by (simp add: grown_def)
  have old: "\<And>j. j < length (nodes g) \<Longrightarrow>
               descendants (nodes g' ! j) = descendants (nodes g ! j)"
    by (rule grown_old(2) [OF gr])
  show ?thesis
  proof (rule set_eqI)
    fix j
    show "j \<in> consumer_set g' i \<longleftrightarrow>
          j \<in> consumer_set g i \<union> (if int i \<in> U then {length (nodes g)} else {})"
    proof (cases "j < length (nodes g)")
      case True
      then show ?thesis using old [OF True] len by (auto simp: consumer_set_def)
    next
      case False
      show ?thesis
      proof (cases "j = length (nodes g)")
        case True
        then show ?thesis using new len i by (auto simp: consumer_set_def)
      next
        case False
        with \<open>\<not> j < length (nodes g)\<close> show ?thesis
          using len by (auto simp: consumer_set_def)
      qed
    qed
  qed
qed

lemma grown_consumer_set_new:
  assumes gr: "grown g U n g'" and c: "closure_ok g"
  shows "consumer_set g' (length (nodes g)) = {}"
proof -
  have len: "length (nodes g') = Suc (length (nodes g))" using gr by (simp add: grown_def)
  {
    fix j assume j: "j < length (nodes g)"
      and mem: "int (length (nodes g)) \<in> set (descendants (nodes g' ! j))"
    have "descendants (nodes g' ! j) = descendants (nodes g ! j)"
      by (rule grown_old(2) [OF gr j])
    with mem have "int (length (nodes g)) \<in> set (descendants (nodes g ! j))" by simp
    from closure_okD(2) [OF c j this] j have False by simp
  }
  then show ?thesis using len by (auto simp: consumer_set_def less_Suc_eq)
qed

lemma grown_depth_counts:
  assumes gr: "grown g U n g'" and wid: "maxId g = int (length (nodes g))"
    and c: "closure_ok g" and dc: "depth_counts g"
  shows "depth_counts g'"
  unfolding depth_counts_def
proof (intro allI impI)
  fix i assume "i < length (nodes g')"
  with gr have "i < length (nodes g) \<or> i = length (nodes g)" by (auto simp: grown_def)
  then show "depth (nodes g' ! i) = int (card (consumer_set g' i))"
  proof
    assume i: "i < length (nodes g)"
    have d: "depth (nodes g' ! i) = depth (nodes g ! i) + (if int i \<in> U then 1 else 0)"
      by (rule grown_old(3) [OF gr i])
    have old: "depth (nodes g ! i) = int (card (consumer_set g i))"
      using dc i by (simp add: depth_counts_def)
    have fresh: "length (nodes g) \<notin> consumer_set g i"
      using consumer_set_bound [of "length (nodes g)" g i] by auto
    have "card (consumer_set g' i) = card (consumer_set g i) + (if int i \<in> U then 1 else 0)"
      using fresh finite_consumer_set [of g i]
      by (simp add: grown_consumer_set_old [OF gr wid i])
    with d old show ?thesis by simp
  next
    assume i: "i = length (nodes g)"
    with gr have "depth (nodes g' ! i) = 0" by (simp add: grown_def)
    with i grown_consumer_set_new [OF gr c] show ?thesis by simp
  qed
qed

lemma grown_maxDepth_ok:
  assumes gr: "grown g U n g'" and cl: "closed_in g U" and m: "maxDepth_ok g"
    and fin: "finite U"
  shows "maxDepth_ok g'"
proof -
  let ?B = "bumped_depths g U"
  let ?M = "Max (insert (maxDepth g) ?B)"
  have finB: "finite ?B" using fin by (simp add: bumped_depths_def)
  have mx: "maxDepth g' = ?M" using gr by (simp add: grown_def)
  have len: "length (nodes g') = Suc (length (nodes g))" using gr by (simp add: grown_def)
  have ge: "maxDepth g \<le> ?M" using finB by simp
  have geB: "\<And>b. b \<in> ?B \<Longrightarrow> b \<le> ?M" using finB by simp
  from m have nn: "0 \<le> maxDepth g"
    and le: "\<And>i. i < length (nodes g) \<Longrightarrow> depth (nodes g ! i) \<le> maxDepth g"
    and att: "maxDepth g = 0 \<or> (\<exists>k < length (nodes g). depth (nodes g ! k) = maxDepth g)"
    by (auto simp: maxDepth_ok_def)
  have new0: "depth (nodes g' ! length (nodes g)) = 0" using gr by (simp add: grown_def)
  have le': "\<forall>i < length (nodes g'). depth (nodes g' ! i) \<le> maxDepth g'"
  proof (intro allI impI)
    fix i assume "i < length (nodes g')"
    with len have "i < length (nodes g) \<or> i = length (nodes g)" by auto
    then show "depth (nodes g' ! i) \<le> maxDepth g'"
    proof
      assume i: "i < length (nodes g)"
      have d: "depth (nodes g' ! i) = depth (nodes g ! i) + (if int i \<in> U then 1 else 0)"
        by (rule grown_old(3) [OF gr i])
      show ?thesis
      proof (cases "int i \<in> U")
        case True
        then have "depth (nodes g ! i) + 1 \<in> ?B" by (force simp: bumped_depths_def)
        from geB [OF this] d True mx show ?thesis by simp
      next
        case False
        with d le [OF i] ge mx show ?thesis by simp
      qed
    next
      assume i: "i = length (nodes g)"
      from nn ge mx new0 i show ?thesis by simp
    qed
  qed
  have "?M \<in> insert (maxDepth g) ?B" using finB by (intro Max_in) auto
  then have att': "maxDepth g' = 0 \<or> (\<exists>k < length (nodes g'). depth (nodes g' ! k) = maxDepth g')"
  proof
    assume eq: "?M = maxDepth g"
    from att show ?thesis
    proof
      assume "maxDepth g = 0"
      with eq mx show ?thesis by simp
    next
      assume "\<exists>k < length (nodes g). depth (nodes g ! k) = maxDepth g"
      then obtain k where k: "k < length (nodes g)" and dk: "depth (nodes g ! k) = maxDepth g"
        by blast
      have "int k \<notin> U"
      proof
        assume "int k \<in> U"
        then have "depth (nodes g ! k) + 1 \<in> ?B" by (force simp: bumped_depths_def)
        from geB [OF this] eq dk show False by simp
      qed
      with grown_old(3) [OF gr k] dk eq mx have "depth (nodes g' ! k) = maxDepth g'" by simp
      with k len show ?thesis by auto
    qed
  next
    assume "?M \<in> ?B"
    then obtain d where d: "d \<in> U" and Md: "?M = depth (nodes g ! nat d) + 1"
      by (auto simp: bumped_depths_def)
    from cl d have lt: "nat d < length (nodes g)" and d0: "0 \<le> d"
      by (auto simp: closed_in_def in_arena_def)
    from d d0 have "int (nat d) \<in> U" by simp
    with grown_old(3) [OF gr lt] Md mx have "depth (nodes g' ! nat d) = maxDepth g'" by simp
    with lt len show ?thesis by auto
  qed
  from nn ge mx have "0 \<le> maxDepth g'" by simp
  with le' att' show ?thesis by (simp add: maxDepth_ok_def)
qed

lemma closed_in_finite: "closed_in g U \<Longrightarrow> finite U"
proof -
  assume "closed_in g U"
  then have "U \<subseteq> {0..<int (length (nodes g))}"
    by (auto simp: closed_in_def in_arena_def)
  then show "finite U" by (rule finite_subset) simp
qed

lemma grown_graph_ok:
  assumes gr: "grown g U n g'" and ok: "graph_ok g" and cl: "closed_in g U"
  shows "graph_ok g'"
proof -
  from ok have i: "ids_ok g" and c: "closure_ok g" and d: "depth_counts g" and m: "maxDepth_ok g"
    by (simp_all add: graph_ok_def)
  from i have wid: "maxId g = int (length (nodes g))" by (simp add: ids_ok_def)
  show ?thesis unfolding graph_ok_def
    using grown_ids_ok [OF gr i] grown_closure_ok [OF gr wid c cl]
      grown_depth_counts [OF gr wid c d] grown_maxDepth_ok [OF gr cl m closed_in_finite [OF cl]]
    by simp
qed

lemma NewGraph_ok: "graph_ok NewGraph"
  by (simp add: graph_ok_def ids_ok_def closure_ok_def depth_counts_def maxDepth_ok_def
      NewGraph_def)

lemma exec_graph_ok:
  assumes ok: "graph_ok g" and ex: "exec X c g = Inr (n, g')"
  shows "graph_ok g'"
proof -
  from ok have i: "ids_ok g" and c: "closure_ok g" by (simp_all add: graph_ok_def)
  from i have wid: "maxId g = int (length (nodes g))" by (simp add: ids_ok_def)
  from exec_grown [OF wid closure_ok_in_arena [OF c] ex]
  have gr: "grown g (operand_closure g (operands_of c)) n g'"
    and ops: "\<forall>a \<in> set (operands_of c). in_arena g (node_Id a)" by simp_all
  from grown_graph_ok [OF gr ok operand_closure_closed [OF c ops]] show ?thesis .
qed

lemma run_append:
  "run X (cs @ ds) g = (case run X cs g of Inl e \<Rightarrow> Inl e | Inr g' \<Rightarrow> run X ds g')"
  by (induction cs arbitrary: g) (auto split: sum.splits)

lemma run_graph_ok:
  "graph_ok g \<Longrightarrow> run X cs g = Inr g' \<Longrightarrow> graph_ok g'"
proof (induction cs arbitrary: g)
  case Nil
  then show ?case by simp
next
  case (Cons c cs)
  from Cons.prems(2) obtain n g1 where ex: "exec X c g = Inr (n, g1)"
    and r: "run X cs g1 = Inr g'"
    by (auto split: sum.splits)
  from Cons.IH [OF exec_graph_ok [OF Cons.prems(1) ex] r] show ?case .
qed

subsection \<open>The arena and the calls that built it\<close>

lemma operand_closure_cong:
  assumes "\<forall>a \<in> set os. descendants (nodes g' ! nat (node_Id a)) =
                          descendants (nodes g ! nat (node_Id a))"
  shows "operand_closure g' os = operand_closure g os"
  using assms by (simp add: operand_closure_def)

lemma exec_trace_ok:
  assumes ok: "graph_ok g" and tr: "trace_ok cs g" and ex: "exec X c g = Inr (n, g')"
  shows "trace_ok (cs @ [c]) g'"
proof -
  from ok have i: "ids_ok g" and c: "closure_ok g" by (simp_all add: graph_ok_def)
  from i have wid: "maxId g = int (length (nodes g))" by (simp add: ids_ok_def)
  from exec_grown [OF wid closure_ok_in_arena [OF c] ex]
  have gr: "grown g (operand_closure g (operands_of c)) n g'"
    and ops: "\<forall>a \<in> set (operands_of c). in_arena g (node_Id a)" by simp_all
  from tr have len: "length (nodes g) = length cs" by (simp add: trace_ok_def)
  from gr have len': "length (nodes g') = Suc (length cs)" using len by (simp add: grown_def)
  have old: "\<And>j. j < length cs \<Longrightarrow> descendants (nodes g' ! j) = descendants (nodes g ! j)"
    using grown_old(2) [OF gr] len by simp
  have "\<forall>i < length (cs @ [c]).
         (\<forall>a \<in> set (operands_of ((cs @ [c]) ! i)). 0 \<le> node_Id a \<and> node_Id a < int i) \<and>
         set (descendants (nodes g' ! i)) =
           insert (int i) (operand_closure g' (operands_of ((cs @ [c]) ! i)))"
  proof (intro allI impI)
    fix i assume "i < length (cs @ [c])"
    then have "i < length cs \<or> i = length cs" by auto
    then show "(\<forall>a \<in> set (operands_of ((cs @ [c]) ! i)). 0 \<le> node_Id a \<and> node_Id a < int i) \<and>
         set (descendants (nodes g' ! i)) =
           insert (int i) (operand_closure g' (operands_of ((cs @ [c]) ! i)))"
    proof
      assume il: "i < length cs"
      from tr il have a: "\<forall>a \<in> set (operands_of (cs ! i)). 0 \<le> node_Id a \<and> node_Id a < int i"
        and d: "set (descendants (nodes g ! i)) =
                  insert (int i) (operand_closure g (operands_of (cs ! i)))"
        by (simp_all add: trace_ok_def)
      have "operand_closure g' (operands_of (cs ! i)) = operand_closure g (operands_of (cs ! i))"
      proof (rule operand_closure_cong, rule ballI)
        fix b assume "b \<in> set (operands_of (cs ! i))"
        with a il have "nat (node_Id b) < length cs" by force
        then show "descendants (nodes g' ! nat (node_Id b)) =
                   descendants (nodes g ! nat (node_Id b))" by (rule old)
      qed
      with a d old [OF il] il show ?thesis by (simp add: nth_append)
    next
      assume ie: "i = length cs"
      have "operand_closure g' (operands_of c) = operand_closure g (operands_of c)"
      proof (rule operand_closure_cong, rule ballI)
        fix b assume "b \<in> set (operands_of c)"
        with ops len have "nat (node_Id b) < length cs" by (auto simp: in_arena_def)
        then show "descendants (nodes g' ! nat (node_Id b)) =
                   descendants (nodes g ! nat (node_Id b))" by (rule old)
      qed
      moreover have "set (descendants (nodes g' ! length cs)) =
                       insert (int (length cs)) (operand_closure g (operands_of c))"
        using gr wid len by (simp add: grown_def)
      ultimately show ?thesis using ops len ie by (simp add: in_arena_def)
    qed
  qed
  with len' show ?thesis by (simp add: trace_ok_def)
qed

lemma run_snoc:
  "run X (cs @ [c]) g =
     (case run X cs g of Inl e \<Rightarrow> Inl e
      | Inr g1 \<Rightarrow> (case exec X c g1 of Inl (e, g2) \<Rightarrow> Inl e | Inr (n, g2) \<Rightarrow> Inr g2))"
  by (simp add: run_append split: sum.splits prod.splits)

lemma run_reachable:
  "run X cs NewGraph = Inr g \<Longrightarrow> graph_ok g \<and> trace_ok cs g"
proof (induction cs arbitrary: g rule: rev_induct)
  case Nil
  then have "g = NewGraph" by simp
  then show ?case by (simp add: NewGraph_ok) (simp add: trace_ok_def NewGraph_def)
next
  case (snoc c cs)
  from snoc.prems obtain g1 n where r: "run X cs NewGraph = Inr g1"
    and ex: "exec X c g1 = Inr (n, g)"
    by (auto simp: run_snoc split: sum.splits)
  from snoc.IH [OF r] have ok: "graph_ok g1" and tr: "trace_ok cs g1" by simp_all
  from exec_graph_ok [OF ok ex] exec_trace_ok [OF ok tr ex] show ?case by simp
qed

lemma trace_ok_operand:
  assumes tr: "trace_ok cs g" and c: "closure_ok g"
    and j: "j < length cs" and a: "a \<in> set (operands_of (cs ! j))"
  shows "0 \<le> node_Id a" and "nat (node_Id a) < j"
    and "set (descendants (nodes g ! nat (node_Id a))) \<subseteq> set (descendants (nodes g ! j))"
    and "node_Id a \<in> set (descendants (nodes g ! j))"
proof -
  from tr j a have r: "0 \<le> node_Id a" "node_Id a < int j"
    and d: "set (descendants (nodes g ! j)) =
              insert (int j) (operand_closure g (operands_of (cs ! j)))"
    by (auto simp: trace_ok_def)
  from r show "0 \<le> node_Id a" and lt: "nat (node_Id a) < j" by auto
  from d a show sub: "set (descendants (nodes g ! nat (node_Id a))) \<subseteq> set (descendants (nodes g ! j))"
    by (auto simp: operand_closure_def)
  from tr have "length (nodes g) = length cs" by (simp add: trace_ok_def)
  with lt j have "nat (node_Id a) < length (nodes g)" by simp
  from closure_ok_self [OF c this] r sub
  show "node_Id a \<in> set (descendants (nodes g ! j))" by auto
qed

lemma consumes_consumer_set:
  assumes tr: "trace_ok cs g" and c: "closure_ok g"
  shows "consumes cs j n \<Longrightarrow> j \<in> consumer_set g n"
proof (induction rule: consumes.induct)
  case (direct j a n)
  from tr have len: "length (nodes g) = length cs" by (simp add: trace_ok_def)
  from trace_ok_operand [OF tr c direct(1,2)] direct(3)
  have "n < j" "int n \<in> set (descendants (nodes g ! j))" by auto
  with direct(1) len show ?case by (simp add: consumer_set_def)
next
  case (transitive j a m n)
  from tr have len: "length (nodes g) = length cs" by (simp add: trace_ok_def)
  from trace_ok_operand [OF tr c transitive(1,2)] transitive(3)
  have mj: "m < j"
    and sub: "set (descendants (nodes g ! m)) \<subseteq> set (descendants (nodes g ! j))" by auto
  from transitive.IH have m: "m < length (nodes g)"
    and nm: "int n \<in> set (descendants (nodes g ! m))"
    by (simp_all add: consumer_set_def)
  from closure_okD(2) [OF c m nm] mj have "n < j" by simp
  with sub nm transitive(1) len show ?case by (auto simp: consumer_set_def)
qed

lemma consumer_set_consumes:
  assumes tr: "trace_ok cs g" and c: "closure_ok g"
  shows "j \<in> consumer_set g n \<Longrightarrow> consumes cs j n"
proof (induction j rule: less_induct)
  case (less j)
  from tr have len: "length (nodes g) = length cs" by (simp add: trace_ok_def)
  from less.prems len have j: "j < length cs" and jn: "j \<noteq> n"
    and mem: "int n \<in> set (descendants (nodes g ! j))"
    by (simp_all add: consumer_set_def)
  from tr j have "set (descendants (nodes g ! j)) =
              insert (int j) (operand_closure g (operands_of (cs ! j)))"
    by (simp add: trace_ok_def)
  with mem jn obtain a where a: "a \<in> set (operands_of (cs ! j))"
    and na: "int n \<in> set (descendants (nodes g ! nat (node_Id a)))"
    by (auto simp: operand_closure_def)
  let ?m = "nat (node_Id a)"
  from trace_ok_operand [OF tr c j a] have a0: "0 \<le> node_Id a" and mj: "?m < j" by simp_all
  from a0 have ida: "node_Id a = int ?m" by simp
  show ?case
  proof (cases "?m = n")
    case True
    with ida have "node_Id a = int n" by simp
    from consumes.direct [OF j a this] show ?thesis .
  next
    case False
    with na mj j len have "?m \<in> consumer_set g n" by (simp add: consumer_set_def)
    from less.IH [OF mj this] have "consumes cs ?m n" .
    from consumes.transitive [OF j a ida this] show ?thesis .
  qed
qed

lemma operand_deeper:
  assumes tr: "trace_ok cs g" and ok: "graph_ok g"
    and j: "j < length cs" and a: "a \<in> set (operands_of (cs ! j))"
  shows "depth (nodes g ! j) < depth (nodes g ! nat (node_Id a))"
proof -
  let ?A = "nat (node_Id a)"
  from ok have c: "closure_ok g" and dc: "depth_counts g" by (simp_all add: graph_ok_def)
  from tr have len: "length (nodes g) = length cs" by (simp add: trace_ok_def)
  from trace_ok_operand [OF tr c j a] have a0: "0 \<le> node_Id a" and Aj: "?A < j"
    and Amem: "node_Id a \<in> set (descendants (nodes g ! j))" by simp_all
  have sub: "consumer_set g j \<subseteq> consumer_set g ?A"
  proof
    fix k assume "k \<in> consumer_set g j"
    then have k: "k < length (nodes g)" and kj: "k \<noteq> j"
      and jm: "int j \<in> set (descendants (nodes g ! k))"
      by (simp_all add: consumer_set_def)
    from closure_okD(2,3) [OF c k jm] have "j \<le> k"
      and "set (descendants (nodes g ! j)) \<subseteq> set (descendants (nodes g ! k))" by simp_all
    with Amem Aj a0 k show "k \<in> consumer_set g ?A" by (auto simp: consumer_set_def)
  qed
  have "j \<in> consumer_set g ?A" using j len Aj Amem a0 by (simp add: consumer_set_def)
  moreover have "j \<notin> consumer_set g j" by (simp add: consumer_set_def)
  ultimately have "consumer_set g j \<subset> consumer_set g ?A" using sub by auto
  then have "card (consumer_set g j) < card (consumer_set g ?A)"
    by (rule psubset_card_mono [OF finite_consumer_set])
  moreover from dc j len have "depth (nodes g ! j) = int (card (consumer_set g j))"
    by (simp add: depth_counts_def)
  moreover from dc Aj j len have "depth (nodes g ! ?A) = int (card (consumer_set g ?A))"
    by (simp add: depth_counts_def)
  ultimately show ?thesis by simp
qed

subsection \<open>The nodes returned\<close>




subsection \<open>What the constructors leave alone\<close>

lemma only_deeper_refl: "only_deeper g g"
  by (simp add: only_deeper_def)

lemma only_deeper_trans:
  assumes a: "only_deeper g g1" and b: "only_deeper g1 g2"
  shows "only_deeper g g2"
proof -
  from a have l1: "length (nodes g) \<le> length (nodes g1)"
    and p1: "\<And>i. i < length (nodes g) \<Longrightarrow>
         node (nodes g1 ! i) = node (nodes g ! i) \<and>
         descendants (nodes g1 ! i) = descendants (nodes g ! i) \<and>
         depth (nodes g ! i) \<le> depth (nodes g1 ! i)"
    by (simp_all add: only_deeper_def)
  from b have l2: "length (nodes g1) \<le> length (nodes g2)"
    and p2: "\<And>i. i < length (nodes g1) \<Longrightarrow>
         node (nodes g2 ! i) = node (nodes g1 ! i) \<and>
         descendants (nodes g2 ! i) = descendants (nodes g1 ! i) \<and>
         depth (nodes g1 ! i) \<le> depth (nodes g2 ! i)"
    by (simp_all add: only_deeper_def)
  have "\<forall>i < length (nodes g).
         node (nodes g2 ! i) = node (nodes g ! i) \<and>
         descendants (nodes g2 ! i) = descendants (nodes g ! i) \<and>
         depth (nodes g ! i) \<le> depth (nodes g2 ! i)"
  proof (intro allI impI)
    fix i assume i: "i < length (nodes g)"
    with l1 have i1: "i < length (nodes g1)" by simp
    from p1 [OF i] p2 [OF i1]
    show "node (nodes g2 ! i) = node (nodes g ! i) \<and>
         descendants (nodes g2 ! i) = descendants (nodes g ! i) \<and>
         depth (nodes g ! i) \<le> depth (nodes g2 ! i)" by simp
  qed
  with l1 l2 show ?thesis by (simp add: only_deeper_def)
qed

lemma visit_frame:
  assumes "visit d (mark, g, ds) = Inr (mark', g', ds')"
  shows "only_deeper g g' \<and> length (nodes g') = length (nodes g)"
proof (cases "index mark d")
  case (Inl e)
  with assms show ?thesis by (simp add: visit_def)
next
  case (Inr marked)
  show ?thesis
  proof (cases marked)
    case True
    with Inr assms show ?thesis by (simp add: visit_def only_deeper_refl)
  next
    case False
    with Inr assms obtain ni where ix: "index (nodes g) d = Inr ni"
      and g': "g' = g\<lparr>nodes := (nodes g)[nat d := ni\<lparr>depth := depth ni + 1\<rparr>],
                      maxDepth := maxDepth_of (depth ni + 1) (maxDepth g)\<rparr>"
      by (auto simp: visit_def Let_def split: sum.splits)
    from index_Inr [OF ix] have ni: "ni = nodes g ! nat d" by simp
    have "\<forall>i < length (nodes g).
            node (nodes g' ! i) = node (nodes g ! i) \<and>
            descendants (nodes g' ! i) = descendants (nodes g ! i) \<and>
            depth (nodes g ! i) \<le> depth (nodes g' ! i)"
    proof (intro allI impI)
      fix i assume i: "i < length (nodes g)"
      show "node (nodes g' ! i) = node (nodes g ! i) \<and>
            descendants (nodes g' ! i) = descendants (nodes g ! i) \<and>
            depth (nodes g ! i) \<le> depth (nodes g' ! i)"
      proof (cases "i = nat d")
        case True
        with i show ?thesis by (simp add: g' ni)
      next
        case False
        with i show ?thesis by (simp add: g')
      qed
    qed
    moreover have "length (nodes g') = length (nodes g)" by (simp add: g')
    ultimately show ?thesis by (simp add: only_deeper_def)
  qed
qed

lemma visit_all_frame:
  "visit_all xs (mark, g, ds) = Inr (mark', g', ds') \<Longrightarrow>
     only_deeper g g' \<and> length (nodes g') = length (nodes g)"
proof (induction xs arbitrary: mark g ds)
  case Nil
  then show ?case by (simp add: only_deeper_refl)
next
  case (Cons x xs)
  from Cons.prems obtain s1 where v0: "visit x (mark, g, ds) = Inr s1"
    and r0: "visit_all xs s1 = Inr (mark', g', ds')"
    by (cases "visit x (mark, g, ds)") simp_all
  obtain m1 g1 ds1 where s1: "s1 = (m1, g1, ds1)" by (cases s1) auto
  from v0 r0 s1 have v: "visit x (mark, g, ds) = Inr (m1, g1, ds1)"
    and r: "visit_all xs (m1, g1, ds1) = Inr (mark', g', ds')" by simp_all
  from visit_frame [OF v] have a: "only_deeper g g1"
    and la: "length (nodes g1) = length (nodes g)" by simp_all
  from Cons.IH [OF r] have b: "only_deeper g1 g'"
    and lb: "length (nodes g') = length (nodes g1)" by simp_all
  from only_deeper_trans [OF a b] la lb show ?case by simp
qed

lemma visit_operands_frame:
  "visit_operands os (mark, g, ds) = Inr (mark', g', ds') \<Longrightarrow>
     only_deeper g g' \<and> length (nodes g') = length (nodes g)"
proof (induction os arbitrary: mark g ds)
  case Nil
  then show ?case by (simp add: only_deeper_refl)
next
  case (Cons a os)
  from Cons.prems obtain ni where "index (nodes g) (node_Id a) = Inr ni"
    by (cases "index (nodes g) (node_Id a)") simp_all
  with Cons.prems obtain s1
    where v0: "visit_all (descendants ni) (mark, g, ds) = Inr s1"
      and r0: "visit_operands os s1 = Inr (mark', g', ds')"
    by (cases "visit_all (descendants ni) (mark, g, ds)") simp_all
  obtain m1 g1 ds1 where s1: "s1 = (m1, g1, ds1)" by (cases s1) auto
  from v0 r0 s1 have v: "visit_all (descendants ni) (mark, g, ds) = Inr (m1, g1, ds1)"
    and r: "visit_operands os (m1, g1, ds1) = Inr (mark', g', ds')" by simp_all
  from visit_all_frame [OF v] have a: "only_deeper g g1"
    and la: "length (nodes g1) = length (nodes g)" by simp_all
  from Cons.IH [OF r] have b: "only_deeper g1 g'"
    and lb: "length (nodes g') = length (nodes g1)" by simp_all
  from only_deeper_trans [OF a b] la lb show ?case by simp
qed

lemma only_deeper_append:
  "only_deeper g g2 \<Longrightarrow> length (nodes g2) = length (nodes g) \<Longrightarrow>
     only_deeper g (g2\<lparr>nodes := nodes g2 @ [r]\<rparr>)"
  by (simp add: only_deeper_def nth_append)

lemma NewOperator_frame:
  assumes "NewOperator X f operands g = Inr (n, g')"
  shows "only_deeper g g' \<and> length (nodes g') = Suc (length (nodes g))"
proof -
  from assms obtain m2 g2 ds r
    where vo: "visit_operands operands
                 (replicate (length (nodes g)) False, g\<lparr>maxId := maxId g + 1\<rparr>, []) =
               Inr (m2, g2, ds)"
      and g': "g' = g2\<lparr>nodes := nodes g2 @ [r]\<rparr>"
    by (auto simp: NewOperator_def newId_def Let_def split: sum.splits option.splits)
  from visit_operands_frame [OF vo]
  have od: "only_deeper (g\<lparr>maxId := maxId g + 1\<rparr>) g2"
    and len: "length (nodes g2) = length (nodes g)" by simp_all
  from od have "only_deeper g g2" by (simp add: only_deeper_def)
  from only_deeper_append [OF this len] len show ?thesis by (simp add: g')
qed

lemma leaf_frame:
  "only_deeper g (g\<lparr>maxId := m, nodes := nodes g @ [r]\<rparr>) \<and>
   length (nodes (g\<lparr>maxId := m, nodes := nodes g @ [r]\<rparr>)) = Suc (length (nodes g))"
  by (simp add: only_deeper_def nth_append)

lemma NewVariable_shape:
  "\<exists>n r. NewVariable val rg g = (n, g\<lparr>maxId := maxId g + 1, nodes := nodes g @ [r]\<rparr>)"
  by (simp add: NewVariable_def newId_def Let_def, blast)

lemma NewWrap_shape:
  "\<exists>n r. NewWrap val g = (n, g\<lparr>maxId := maxId g + 1, nodes := nodes g @ [r]\<rparr>)"
  by (simp add: NewWrap_def newId_def Let_def, blast)

lemma NewWrapNoGrad_shape:
  "\<exists>n r. NewWrapNoGrad val g = (n, g\<lparr>maxId := maxId g + 1, nodes := nodes g @ [r]\<rparr>)"
  by (simp add: NewWrapNoGrad_def newId_def Let_def, blast)

lemma shape_frame:
  assumes "\<exists>n r. c = (n, g\<lparr>maxId := m, nodes := nodes g @ [r]\<rparr>)" and "c = (n', g')"
  shows "only_deeper g g' \<and> length (nodes g') = Suc (length (nodes g))"
proof -
  from assms obtain r where "g' = g\<lparr>maxId := m, nodes := nodes g @ [r]\<rparr>" by auto
  with leaf_frame [where g = g and m = m and r = r] show ?thesis by simp
qed

lemma exec_frame:
  assumes "exec X c g = Inr (n, g')"
  shows "only_deeper g g' \<and> length (nodes g') = Suc (length (nodes g))"
proof (cases c)
  case (CallNewOperator f operands)
  with assms have "NewOperator X f operands g = Inr (n, g')" by simp
  then show ?thesis by (rule NewOperator_frame)
next
  case (CallNewVariable val rg)
  with assms have "NewVariable val rg g = (n, g')" by simp
  from shape_frame [OF NewVariable_shape this] show ?thesis .
next
  case (CallNewScalar val)
  with assms have "NewVariable (mat_NewScalar X val) False g = (n, g')"
    by (simp add: NewScalar_def)
  from shape_frame [OF NewVariable_shape this] show ?thesis .
next
  case (CallNewWrap val)
  with assms have "NewWrap val g = (n, g')" by simp
  from shape_frame [OF NewWrap_shape this] show ?thesis .
next
  case (CallNewWrapNoGrad val)
  with assms have "NewWrapNoGrad val g = (n, g')" by simp
  from shape_frame [OF NewWrapNoGrad_shape this] show ?thesis .
qed

lemma run_frame:
  "run X cs g = Inr g' \<Longrightarrow>
     only_deeper g g' \<and> length (nodes g') = length (nodes g) + length cs"
proof (induction cs arbitrary: g)
  case Nil
  then show ?case by (simp add: only_deeper_refl)
next
  case (Cons c cs)
  from Cons.prems obtain r where ex0: "exec X c g = Inr r"
    by (cases "exec X c g") (simp_all split: prod.splits)
  obtain n g1 where r: "r = (n, g1)" by (cases r) auto
  from ex0 r have ex: "exec X c g = Inr (n, g1)" by simp
  with Cons.prems have rr: "run X cs g1 = Inr g'" by simp
  from exec_frame [OF ex] have a: "only_deeper g g1"
    and la: "length (nodes g1) = Suc (length (nodes g))" by simp_all
  from Cons.IH [OF rr] have b: "only_deeper g1 g'"
    and lb: "length (nodes g') = length (nodes g1) + length cs" by simp_all
  from only_deeper_trans [OF a b] la lb show ?case by simp
qed

subsection \<open>Grouping by depth\<close>

lemma concat_update_snoc:
  "i < length xs \<Longrightarrow> mset (concat (xs[i := xs ! i @ [x]])) = mset (concat xs) + {#x#}"
proof (induction xs arbitrary: i)
  case Nil
  then show ?case by simp
next
  case (Cons y ys)
  then show ?case by (cases i) simp_all
qed

lemma group_from_ok:
  assumes "\<forall>n \<in> set ns. 0 \<le> depth n \<and> depth n < int (length out)"
  shows "\<exists>out'. group_from ns out = Inr out' \<and> length out' = length out \<and>
           (\<forall>d < length out.
              out' ! d = out ! d @ map node (filter (\<lambda>n. depth n = int d) ns)) \<and>
           mset (concat out') = mset (concat out) + mset (map node ns)"
  using assms
proof (induction ns arbitrary: out)
  case Nil
  then show ?case by simp
next
  case (Cons n ns)
  define k where "k = nat (depth n)"
  define out1 where "out1 = out[k := out ! k @ [node n]]"
  from Cons.prems have d0: "0 \<le> depth n" and k: "k < length out" by (auto simp: k_def)
  have ix: "index out (depth n) = Inr (out ! k)" using d0 k by (simp add: index_def k_def)
  have l1: "length out1 = length out" by (simp add: out1_def)
  have "\<forall>m \<in> set ns. 0 \<le> depth m \<and> depth m < int (length out1)"
    using Cons.prems by (simp add: l1)
  from Cons.IH [OF this] obtain out'
    where g: "group_from ns out1 = Inr out'" and len: "length out' = length out1"
      and pt: "\<forall>d < length out1.
                 out' ! d = out1 ! d @ map node (filter (\<lambda>n. depth n = int d) ns)"
      and ms: "mset (concat out') = mset (concat out1) + mset (map node ns)"
    by blast
  have "group_from (n # ns) out = Inr out'" using ix g by (simp add: out1_def k_def)
  moreover have "\<forall>d < length out.
          out' ! d = out ! d @ map node (filter (\<lambda>n. depth n = int d) (n # ns))"
  proof (intro allI impI)
    fix d assume d: "d < length out"
    from pt d l1 have p: "out' ! d = out1 ! d @ map node (filter (\<lambda>n. depth n = int d) ns)"
      by simp
    show "out' ! d = out ! d @ map node (filter (\<lambda>n. depth n = int d) (n # ns))"
    proof (cases "d = k")
      case True
      then have e: "depth n = int d" using d0 by (simp add: k_def)
      have "out1 ! d = out ! d @ [node n]" using True d by (simp add: out1_def)
      with p e show ?thesis by simp
    next
      case False
      then have e: "depth n \<noteq> int d" by (auto simp: k_def)
      have "out1 ! d = out ! d" using False by (simp add: out1_def)
      with p e show ?thesis by simp
    qed
  qed
  moreover have "mset (concat out') = mset (concat out) + mset (map node (n # ns))"
    using ms concat_update_snoc [OF k, of "node n"] by (simp add: out1_def)
  ultimately show ?case using len l1 by auto
qed

lemma ids_ok_distinct:
  assumes "ids_ok g"
  shows "distinct (map node (nodes g))"
proof -
  have "map node_Id (map node (nodes g)) = map int [0..<length (nodes g)]"
    using assms by (intro nth_equalityI) (simp_all add: ids_ok_def)
  moreover have "distinct (map int [0..<length (nodes g)])"
    by (simp add: distinct_map)
  ultimately have "distinct (map node_Id (map node (nodes g)))" by simp
  then show ?thesis by (simp only: distinct_map [of node_Id "map node (nodes g)"])
qed

lemma maxDepth_ok_Max:
  assumes "maxDepth_ok g"
  shows "maxDepth g = Max (insert 0 (depth ` set (nodes g)))"
proof (rule sym, rule Max_eqI)
  show "finite (insert 0 (depth ` set (nodes g)))" by simp
next
  fix y assume "y \<in> insert 0 (depth ` set (nodes g))"
  with assms show "y \<le> maxDepth g"
    by (auto simp: maxDepth_ok_def in_set_conv_nth)
next
  from assms have "maxDepth g = 0 \<or> (\<exists>k < length (nodes g). depth (nodes g ! k) = maxDepth g)"
    by (simp add: maxDepth_ok_def)
  then show "maxDepth g \<in> insert 0 (depth ` set (nodes g))"
  proof
    assume "maxDepth g = 0" then show ?thesis by simp
  next
    assume "\<exists>k < length (nodes g). depth (nodes g ! k) = maxDepth g"
    then obtain k where "k < length (nodes g)" "depth (nodes g ! k) = maxDepth g" by blast
    then have "maxDepth g \<in> depth ` set (nodes g)" by (metis imageI nth_mem)
    then show ?thesis by simp
  qed
qed

lemma run_split:
  assumes "run X (before @ c # after) g0 = Inr g"
  shows "\<exists>g1 n g2. run X before g0 = Inr g1 \<and> exec X c g1 = Inr (n, g2) \<and>
           run X after g2 = Inr g"
proof -
  from assms obtain g1 where b: "run X before g0 = Inr g1" and r: "run X (c # after) g1 = Inr g"
    by (cases "run X before g0") (simp_all add: run_append)
  from r obtain p where e0: "exec X c g1 = Inr p"
    by (cases "exec X c g1") (simp_all split: prod.splits)
  obtain n g2 where p: "p = (n, g2)" by (cases p) auto
  from r e0 p have "run X after g2 = Inr g" by simp
  with b e0 p show ?thesis by blast
qed

lemma reachable_length:
  "run X cs NewGraph = Inr g \<Longrightarrow> length (nodes g) = length cs"
  using run_reachable [of X cs g] by (simp add: trace_ok_def)

lemma operator_payload_kept:
  assumes r: "run X (before @ CallNewOperator f operands # after) NewGraph = Inr g"
  shows "\<exists>v. Forward X f = Some v \<and>
           node (nodes g ! length before) =
             Operator (int (length before)) f v None False (requireGrad X operands)"
proof -
  from run_split [OF r] obtain g1 n g2 where b: "run X before NewGraph = Inr g1"
    and e: "NewOperator X f operands g1 = Inr (n, g2)" and a: "run X after g2 = Inr g"
    by auto
  from run_reachable [OF b] have ok: "graph_ok g1" by simp
  then have i: "ids_ok g1" and c: "closure_ok g1" by (simp_all add: graph_ok_def)
  from i have wid: "maxId g1 = int (length (nodes g1))" by (simp add: ids_ok_def)
  have len1: "length (nodes g1) = length before" by (rule reachable_length [OF b])
  from NewOperator_Inr_Forward [OF e] obtain v where fw: "Forward X f = Some v" by blast
  from NewOperator_grown [OF wid closure_ok_in_arena [OF c] NewOperator_Inr_operands [OF e] fw] e
  have n: "n = Operator (maxId g1) f v None False (requireGrad X operands)"
    and gr: "grown g1 (operand_closure g1 operands) n g2" by auto
  from gr have at: "node (nodes g2 ! length (nodes g1)) = n"
    and len2: "length (nodes g2) = Suc (length (nodes g1))" by (simp_all add: grown_def)
  from run_frame [OF a] have "only_deeper g2 g" by simp
  with len2 have "node (nodes g ! length (nodes g1)) = node (nodes g2 ! length (nodes g1))"
    by (simp add: only_deeper_def)
  with at n wid len1 fw show ?thesis by simp
qed

section \<open>Properties of the graph\<close>

lemmas eval_defs =
  plain_kernels_def NewGraph_def NewVariable_def NewScalar_def NewWrap_def NewWrapNoGrad_def
  NewOperator_def newId_def sumDescendants_def index_def visit_def maxDepth_of_def Let_def
  node_a_def node_b_def node_c_def node_d_def

lemma diamond_run: "run plain_kernels diamond NewGraph = Inr diamond_graph"
  by (simp add: diamond_def diamond_graph_def eval_defs)

lemma diamond_issued:
  "issued plain_kernels diamond NewGraph = Inr [node_a, node_b, node_c, node_d]"
  by (simp add: diamond_def eval_defs)

text \<open>
  C10. In every reachable graph, the \<open>descendants\<close> of the record at index \<open>i\<close> contain
  \<open>i\<close>, have no duplicates, hold only identities between 0 and \<open>i\<close>, and are transitively
  closed: the descendants of each of their members are among them.
\<close>

theorem descendants_closed:
  assumes "run X cs NewGraph = Inr g" and "i < length (nodes g)"
  shows "int i \<in> set (descendants (nodes g ! i)) \<and>
         distinct (descendants (nodes g ! i)) \<and>
         (\<forall>j \<in> set (descendants (nodes g ! i)).
            0 \<le> j \<and> j \<le> int i \<and>
            (\<forall>k \<in> set (descendants (nodes g ! nat j)). k \<in> set (descendants (nodes g ! i))))"
proof -
  from run_reachable [OF assms(1)] have c: "closure_ok g" by (simp add: graph_ok_def)
  from c assms(2) show ?thesis unfolding closure_ok_def by blast
qed

theorem descendants_closed_witness:
  "int 2 \<in> set (descendants (nodes diamond_graph ! 2)) \<and>
   distinct (descendants (nodes diamond_graph ! 2)) \<and>
   set (descendants (nodes diamond_graph ! 2)) = {0, 1, 2}"
proof -
  have "(2::nat) < length (nodes diamond_graph)" by (simp add: diamond_graph_def)
  from descendants_closed [OF diamond_run this] show ?thesis
    by (simp add: diamond_graph_def)
qed




text \<open>
  C1. An operator built by a call of a sequence keeps, after every later call of the
  sequence, a depth strictly below the depth of each of its operands: if the call
  \<open>NewOperator f operands\<close> comes after the calls \<open>before\<close>, its record is at index
  \<open>length before\<close>, each operand \<open>a\<close> has an earlier identity, and in the final graph the
  depth at \<open>length before\<close> is less than the depth at the operand's identity.
\<close>

theorem operator_shallower_than_operands:
  assumes "run X (before @ CallNewOperator f operands # after) NewGraph = Inr g"
    and "a \<in> set operands"
  shows "(\<exists>v. node (nodes g ! length before) =
                Operator (int (length before)) f v None False (requireGrad X operands)) \<and>
         0 \<le> node_Id a \<and> nat (node_Id a) < length before \<and>
         length before < length (nodes g) \<and>
         depth (nodes g ! length before) < depth (nodes g ! nat (node_Id a))"
proof -
  let ?cs = "before @ CallNewOperator f operands # after"
  from run_reachable [OF assms(1)] have ok: "graph_ok g" and tr: "trace_ok ?cs g" by simp_all
  from ok have c: "closure_ok g" by (simp add: graph_ok_def)
  have j: "length before < length ?cs" by simp
  have a: "a \<in> set (operands_of (?cs ! length before))" using assms(2) by simp
  from operator_payload_kept [OF assms(1)]
  have p: "\<exists>v. node (nodes g ! length before) =
                Operator (int (length before)) f v None False (requireGrad X operands)"
    by blast
  from trace_ok_operand(1,2) [OF tr c j a]
  have r: "0 \<le> node_Id a" "nat (node_Id a) < length before" by simp_all
  from reachable_length [OF assms(1)] have l: "length before < length (nodes g)" by simp
  from operand_deeper [OF tr ok j a] p r l show ?thesis by blast
qed

theorem operator_shallower_than_operands_witness:
  "node (nodes diamond_graph ! 2) = node_c \<and>
   depth (nodes diamond_graph ! 2) < depth (nodes diamond_graph ! 0) \<and>
   depth (nodes diamond_graph ! 2) < depth (nodes diamond_graph ! 1)"
proof -
  have r: "run plain_kernels
             ([CallNewVariable 1 True, CallNewVariable 2 False] @
              CallNewOperator 7 [node_a, node_b] # [CallNewOperator 8 [node_a, node_c]])
             NewGraph = Inr diamond_graph"
    using diamond_run by (simp add: diamond_def)
  have a: "node_a \<in> set [node_a, node_b]" and b: "node_b \<in> set [node_a, node_b]"
    by simp_all
  from operator_shallower_than_operands [OF r a] operator_shallower_than_operands [OF r b]
  show ?thesis by (simp add: node_a_def node_b_def) (simp add: diamond_graph_def)
qed

text \<open>
  C2. In the graph built by a sequence of calls, the depth of a node is the number of
  operator nodes built so far that consume it, directly or through their operands; in the
  diamond c = f(a, b), d = g(a, c) node a ends with depth 2 and node c with depth 1.
\<close>

theorem depth_counts_consumers:
  "(\<forall>X cs g n. run X cs NewGraph = Inr g \<and> n < length (nodes g) \<longrightarrow>
      depth (nodes g ! n) = int (card {j. consumes cs j n})) \<and>
   (\<exists>g. run plain_kernels diamond NewGraph = Inr g \<and>
      node (nodes g ! 0) = node_a \<and> depth (nodes g ! 0) = 2 \<and>
      node (nodes g ! 2) = node_c \<and> depth (nodes g ! 2) = 1)"
proof (intro conjI allI impI)
  fix X :: "('a, 'b, 'c, 'd) collaborators" and cs g n
  assume h: "run X cs NewGraph = Inr g \<and> n < length (nodes g)"
  from run_reachable [of X cs g] h have ok: "graph_ok g" and tr: "trace_ok cs g" by simp_all
  from ok have c: "closure_ok g" and dc: "depth_counts g" by (simp_all add: graph_ok_def)
  have "{j. consumes cs j n} = consumer_set g n"
    using consumes_consumer_set [OF tr c] consumer_set_consumes [OF tr c] by blast
  with dc h show "depth (nodes g ! n) = int (card {j. consumes cs j n})"
    by (simp add: depth_counts_def)
next
  show "\<exists>g. run plain_kernels diamond NewGraph = Inr g \<and>
      node (nodes g ! 0) = node_a \<and> depth (nodes g ! 0) = 2 \<and>
      node (nodes g ! 2) = node_c \<and> depth (nodes g ! 2) = 1"
    using diamond_run by (simp add: diamond_graph_def)
qed

theorem depth_counts_consumers_witness:
  "depth (nodes diamond_graph ! 1) = int (card {j. consumes diamond j 1}) \<and>
   card {j. consumes diamond j 1} = 2"
proof -
  have "(1::nat) < length (nodes diamond_graph)" by (simp add: diamond_graph_def)
  with depth_counts_consumers diamond_run
  have "depth (nodes diamond_graph ! 1) = int (card {j. consumes diamond j 1})" by blast
  then show ?thesis by (simp add: diamond_graph_def)
qed

text \<open>
  C3. On a reachable graph, with operands that are in the arena and a kernel whose
  \<open>Forward\<close> returns \<open>v\<close>, NewOperator returns; it adds 1 to the depth of every record whose
  identity is in the union of the operands' \<open>descendants\<close>, once each, and changes nothing
  else in the records it found; \<open>maxDepth\<close> becomes the maximum of its old value and of the
  new depths; the record appended holds the new operator (its value \<open>v\<close>, its
  \<open>requiresGrad\<close> true exactly when some operand requires gradients), depth 0 and, without
  duplicates, that union and the new identity.
\<close>

theorem NewOperator_postcondition:
  assumes "run X cs NewGraph = Inr g"
    and "\<forall>a \<in> set operands. 0 \<le> node_Id a \<and> node_Id a < int (length (nodes g))"
    and "Forward X f = Some v"
  shows "\<exists>g'. NewOperator X f operands g =
                 Inr (Operator (maxId g) f v None False (\<exists>a \<in> set operands. RequiresGrad X a),
                      g') \<and>
           maxId g' = maxId g + 1 \<and>
           length (nodes g') = length (nodes g) + 1 \<and>
           (\<forall>i < length (nodes g).
              nodes g' ! i =
                (nodes g ! i)\<lparr>depth := depth (nodes g ! i) +
                   (if int i \<in> operand_closure g operands then 1 else 0)\<rparr>) \<and>
           maxDepth g' =
             Max (insert (maxDepth g)
                    ((\<lambda>d. depth (nodes g ! nat d) + 1) ` operand_closure g operands)) \<and>
           node (nodes g' ! length (nodes g)) =
             Operator (maxId g) f v None False (\<exists>a \<in> set operands. RequiresGrad X a) \<and>
           depth (nodes g' ! length (nodes g)) = 0 \<and>
           distinct (descendants (nodes g' ! length (nodes g))) \<and>
           set (descendants (nodes g' ! length (nodes g))) =
             insert (maxId g) (operand_closure g operands)"
proof -
  from run_reachable [OF assms(1)] have ok: "graph_ok g" by simp
  then have i: "ids_ok g" and c: "closure_ok g" by (simp_all add: graph_ok_def)
  from i have wid: "maxId g = int (length (nodes g))" by (simp add: ids_ok_def)
  from assms(2) have ops: "\<forall>a \<in> set operands. in_arena g (node_Id a)"
    by (simp add: in_arena_def)
  from NewOperator_grown [OF wid closure_ok_in_arena [OF c] ops assms(3)] obtain g'
    where r: "NewOperator X f operands g =
                Inr (Operator (maxId g) f v None False (requireGrad X operands), g')"
      and gr: "grown g (operand_closure g operands)
                 (Operator (maxId g) f v None False (requireGrad X operands)) g'"
    by blast
  have old: "\<forall>i < length (nodes g).
              nodes g' ! i =
                (nodes g ! i)\<lparr>depth := depth (nodes g ! i) +
                   (if int i \<in> operand_closure g operands then 1 else 0)\<rparr>"
    using gr by (simp add: grown_def bump_def)
  from r gr old show ?thesis
    by (simp add: grown_def bumped_depths_def requireGrad_iff)
qed

theorem NewOperator_postcondition_witness:
  "\<exists>g'. NewOperator plain_kernels 9 [node_d] diamond_graph =
           Inr (Operator 4 9 9 None False True, g') \<and>
         length (nodes g') = 5 \<and> maxDepth g' = 3 \<and> depth (nodes g' ! 4) = 0 \<and>
         set (descendants (nodes g' ! 4)) = {0, 1, 2, 3, 4}"
proof -
  have ops: "\<forall>a \<in> set [node_d]. 0 \<le> node_Id a \<and> node_Id a < int (length (nodes diamond_graph))"
    by (simp add: node_d_def diamond_graph_def)
  have fw: "Forward plain_kernels (9::nat) = Some 9" by (simp add: plain_kernels_def)
  have oc: "operand_closure diamond_graph [node_d] = {0, 1, 2, 3}"
    by (auto simp: operand_closure_def node_d_def diamond_graph_def)
  have len: "length (nodes diamond_graph) = 4" by (simp add: diamond_graph_def)
  have mid: "maxId diamond_graph = 4" by (simp add: diamond_graph_def)
  have rg: "(\<exists>a \<in> set [node_d]. RequiresGrad plain_kernels a) = True"
    by (simp add: node_d_def)
  have mx: "Max (insert (maxDepth diamond_graph)
                  ((\<lambda>d. depth (nodes diamond_graph ! nat d) + 1) ` {0, 1, 2, 3})) = 3"
    by (simp add: diamond_graph_def)
  from NewOperator_postcondition [OF diamond_run ops fw] obtain g'
    where r: "NewOperator plain_kernels 9 [node_d] diamond_graph =
                Inr (Operator (maxId diamond_graph) 9 9 None False
                       (\<exists>a \<in> set [node_d]. RequiresGrad plain_kernels a), g')"
      and l: "length (nodes g') = length (nodes diamond_graph) + 1"
      and m: "maxDepth g' =
                Max (insert (maxDepth diamond_graph)
                  ((\<lambda>d. depth (nodes diamond_graph ! nat d) + 1) `
                     operand_closure diamond_graph [node_d]))"
      and d: "depth (nodes g' ! length (nodes diamond_graph)) = 0"
      and s: "set (descendants (nodes g' ! length (nodes diamond_graph))) =
                insert (maxId diamond_graph) (operand_closure diamond_graph [node_d])"
    by (elim exE conjE)
  from r have r': "NewOperator plain_kernels 9 [node_d] diamond_graph =
                     Inr (Operator 4 9 9 None False True, g')"
    by (simp only: mid rg)
  from l have l': "length (nodes g') = 5" by (simp add: len)
  from m have m': "maxDepth g' = 3" by (simp only: oc mx)
  from d have d': "depth (nodes g' ! 4) = 0" by (simp only: len)
  from s have s': "set (descendants (nodes g' ! 4)) = {0, 1, 2, 3, 4}"
    by (simp add: len mid oc insert_commute)
  from r' l' m' d' s' show ?thesis by blast
qed

text \<open>
  C6. \<open>Reset\<close> leaves the graph in the state \<open>NewGraph\<close> produces, so a sequence of calls
  replayed after it returns the same nodes and builds the same graph (identities, depths
  and all) as on a fresh graph; the objects owned outside the graph are as before.
\<close>

theorem Reset_is_NewGraph:
  "Reset g = NewGraph \<and>
   run X cs (Reset g) = run X cs NewGraph \<and>
   issued X cs (Reset g) = issued X cs NewGraph \<and>
   graph (Reset_in w) = NewGraph \<and> externals (Reset_in w) = externals w"
proof -
  have e: "Reset g = NewGraph" by (simp add: Reset_def NewGraph_def)
  have e': "Reset (graph w) = NewGraph" by (simp add: Reset_def NewGraph_def)
  show ?thesis by (simp add: e e' Reset_in_def)
qed

theorem Reset_is_NewGraph_witness:
  "Reset diamond_graph = NewGraph \<and>
   run plain_kernels diamond (Reset diamond_graph) = Inr diamond_graph \<and>
   issued plain_kernels diamond (Reset diamond_graph) = Inr [node_a, node_b, node_c, node_d]"
  using Reset_is_NewGraph
          [of diamond_graph plain_kernels diamond
              "\<lparr>graph = diamond_graph, externals = (\<lambda>w. ())\<rparr>"]
        diamond_run diamond_issued
  by simp

text \<open>
  C7. An operand whose identity is not in the arena makes NewOperator fail at that call:
  the call panics, and the panic is the out-of-range one (raised after the identity was
  issued and before any record is touched) whenever the kernel's \<open>Forward\<close> has returned.
  On a reachable graph, with every operand's identity in the arena, the out-of-range panic
  does not occur, and the call returns when \<open>Forward\<close> does.
\<close>

theorem invalid_operand_fails:
  "((\<exists>a \<in> set operands. node_Id a < 0 \<or> int (length (nodes g)) \<le> node_Id a) \<longrightarrow>
      (\<exists>e g'. NewOperator X f operands g = Inl (e, g')) \<and>
      (\<forall>v. Forward X f = Some v \<longrightarrow>
         NewOperator X f operands g = Inl (IndexOutOfRange, g\<lparr>maxId := maxId g + 1\<rparr>))) \<and>
   (run X cs NewGraph = Inr h \<and>
    (\<forall>a \<in> set operands. 0 \<le> node_Id a \<and> node_Id a < int (length (nodes h))) \<longrightarrow>
      (\<forall>g'. NewOperator X f operands h \<noteq> Inl (IndexOutOfRange, g')) \<and>
      (\<forall>v. Forward X f = Some v \<longrightarrow> (\<exists>r. NewOperator X f operands h = Inr r)))"
proof (intro conjI impI)
  assume bad: "\<exists>a \<in> set operands. node_Id a < 0 \<or> int (length (nodes g)) \<le> node_Id a"
  then obtain a where a: "a \<in> set operands"
    and out: "node_Id a < 0 \<or> int (length (nodes g)) \<le> node_Id a" by blast
  from out have "\<not> in_arena (g\<lparr>maxId := maxId g + 1\<rparr>) (node_Id a)"
    by (auto simp: in_arena_def)
  with a have "\<exists>a \<in> set operands. \<not> in_arena (g\<lparr>maxId := maxId g + 1\<rparr>) (node_Id a)"
    by blast
  from sumDescendants_from_Inl [OF this]
  have sd: "sumDescendants (g\<lparr>maxId := maxId g + 1\<rparr>) operands = Inl IndexOutOfRange"
    by (simp add: sumDescendants_def)
  show "\<exists>e g'. NewOperator X f operands g = Inl (e, g')"
    using sd by (cases "Forward X f") (simp_all add: NewOperator_def newId_def Let_def)
  show "\<forall>v. Forward X f = Some v \<longrightarrow>
          NewOperator X f operands g = Inl (IndexOutOfRange, g\<lparr>maxId := maxId g + 1\<rparr>)"
    using sd by (simp add: NewOperator_def newId_def Let_def)
next
  assume ok: "run X cs NewGraph = Inr h \<and>
    (\<forall>a \<in> set operands. 0 \<le> node_Id a \<and> node_Id a < int (length (nodes h)))"
  from run_reachable [of X cs h] ok have "graph_ok h" by simp
  then have i: "ids_ok h" and c: "closure_ok h" by (simp_all add: graph_ok_def)
  from i have wid: "maxId h = int (length (nodes h))" by (simp add: ids_ok_def)
  from ok have ops: "\<forall>a \<in> set operands. in_arena h (node_Id a)" by (simp add: in_arena_def)
  show ret: "\<forall>v. Forward X f = Some v \<longrightarrow> (\<exists>r. NewOperator X f operands h = Inr r)"
    using NewOperator_grown [OF wid closure_ok_in_arena [OF c] ops] by blast
  show "\<forall>g'. NewOperator X f operands h \<noteq> Inl (IndexOutOfRange, g')"
  proof (cases "Forward X f")
    case None
    then show ?thesis by (simp add: NewOperator_def)
  next
    case (Some v)
    with ret show ?thesis by auto
  qed
qed

theorem invalid_operand_fails_witness:
  "NewOperator plain_kernels 9 [Variable 4 0 None False True] diamond_graph =
     Inl (IndexOutOfRange, diamond_graph\<lparr>maxId := 5\<rparr>) \<and>
   NewOperator plain_kernels 9 [node_d] diamond_graph \<noteq>
     Inl (IndexOutOfRange, diamond_graph\<lparr>maxId := 5\<rparr>) \<and>
   (\<exists>r. NewOperator plain_kernels 9 [node_d] diamond_graph = Inr r)"
proof -
  let ?far = "Variable 4 0 None False True :: (nat, nat, nat) Node"
  have bad: "\<exists>a \<in> set [?far].
               node_Id a < 0 \<or> int (length (nodes diamond_graph)) \<le> node_Id a"
    by (simp add: diamond_graph_def)
  have good: "\<forall>a \<in> set [node_d].
                0 \<le> node_Id a \<and> node_Id a < int (length (nodes diamond_graph))"
    by (simp add: node_d_def diamond_graph_def)
  have fw: "Forward plain_kernels (9::nat) = Some 9" by (simp add: plain_kernels_def)
  have mid: "maxId diamond_graph + 1 = 5" by (simp add: diamond_graph_def)
  from invalid_operand_fails
         [where operands = "[?far]" and g = diamond_graph and X = plain_kernels and f = 9]
       bad fw
  have "NewOperator plain_kernels 9 [?far] diamond_graph =
          Inl (IndexOutOfRange, diamond_graph\<lparr>maxId := maxId diamond_graph + 1\<rparr>)"
    by blast
  then have one: "NewOperator plain_kernels 9 [?far] diamond_graph =
                    Inl (IndexOutOfRange, diamond_graph\<lparr>maxId := 5\<rparr>)"
    by (simp only: mid)
  from invalid_operand_fails
         [where operands = "[node_d]" and X = plain_kernels and f = 9 and cs = diamond
            and h = diamond_graph]
       diamond_run good fw
  have two: "(\<forall>g'. NewOperator plain_kernels 9 [node_d] diamond_graph \<noteq>
                      Inl (IndexOutOfRange, g')) \<and>
             (\<exists>r. NewOperator plain_kernels 9 [node_d] diamond_graph = Inr r)"
    by blast
  from one two show ?thesis by simp
qed

text \<open>
  C8. Whatever the graph, a sequence of constructor calls that returns keeps every record
  it found at its index, with the same payload (hence the same identity) and the same
  \<open>descendants\<close>, and with a depth that has not decreased; the arena has grown by one record
  for each call. Only \<open>Reset\<close> removes records, and it removes all of them.
\<close>

theorem records_only_deepen:
  assumes "run X cs g = Inr g'" and "i < length (nodes g)"
  shows "i < length (nodes g') \<and>
         node (nodes g' ! i) = node (nodes g ! i) \<and>
         node_Id (node (nodes g' ! i)) = node_Id (node (nodes g ! i)) \<and>
         descendants (nodes g' ! i) = descendants (nodes g ! i) \<and>
         depth (nodes g ! i) \<le> depth (nodes g' ! i) \<and>
         length (nodes g') = length (nodes g) + length cs \<and>
         nodes (Reset g') = []"
proof -
  from run_frame [OF assms(1)] have od: "only_deeper g g'"
    and len: "length (nodes g') = length (nodes g) + length cs" by simp_all
  from od assms(2) have "node (nodes g' ! i) = node (nodes g ! i)"
    and "descendants (nodes g' ! i) = descendants (nodes g ! i)"
    and "depth (nodes g ! i) \<le> depth (nodes g' ! i)"
    by (simp_all add: only_deeper_def)
  with len assms(2) show ?thesis by (simp add: Reset_def)
qed

theorem records_only_deepen_witness:
  "node (nodes diamond_graph ! 0) = Variable 0 1 None False True \<and>
   descendants (nodes diamond_graph ! 0) = [0] \<and>
   0 \<le> depth (nodes diamond_graph ! 0) \<and>
   length (nodes diamond_graph) = 1 + length (tl diamond)"
proof -
  let ?g1 = "\<lparr>maxId = 1, maxDepth = 0,
              nodes = [\<lparr>node = node_a, depth = 0, descendants = [0]\<rparr>]\<rparr> :: (nat, nat, nat) Graph"
  have r: "run plain_kernels (tl diamond) ?g1 = Inr diamond_graph"
    by (simp add: diamond_def diamond_graph_def eval_defs)
  have i: "(0::nat) < length (nodes ?g1)" by simp
  from records_only_deepen [OF r i] show ?thesis by (simp add: node_a_def)
qed

text \<open>
  C9. In every reachable graph each depth lies between 0 and \<open>maxDepth\<close>, and \<open>maxDepth\<close> is
  the largest depth (0 for the empty graph). So groupNodesByDepth returns: it yields
  \<open>maxDepth + 1\<close> buckets, the bucket at index \<open>d\<close> holds exactly the nodes of depth \<open>d\<close> in
  the order of their creation, and the buckets together hold every node once.
\<close>

theorem groupNodesByDepth_partitions:
  assumes "run X cs NewGraph = Inr g"
  shows "(\<forall>n \<in> set (nodes g). 0 \<le> depth n \<and> depth n \<le> maxDepth g) \<and>
         maxDepth g = Max (insert 0 (depth ` set (nodes g))) \<and>
         (\<exists>out. groupNodesByDepth g = Inr out \<and>
            length out = nat (maxDepth g + 1) \<and>
            (\<forall>d < length out.
               out ! d = map node (filter (\<lambda>n. depth n = int d) (nodes g))) \<and>
            mset (concat out) = mset (map node (nodes g)) \<and>
            distinct (concat out))"
proof -
  from run_reachable [OF assms] have ok: "graph_ok g" by simp
  then have i: "ids_ok g" and dc: "depth_counts g" and m: "maxDepth_ok g"
    by (simp_all add: graph_ok_def)
  from m have m0: "0 \<le> maxDepth g" by (simp add: maxDepth_ok_def)
  have rng: "\<forall>n \<in> set (nodes g). 0 \<le> depth n \<and> depth n \<le> maxDepth g"
  proof
    fix n assume "n \<in> set (nodes g)"
    then obtain k where k: "k < length (nodes g)" and n: "n = nodes g ! k"
      by (auto simp: in_set_conv_nth)
    from dc k have "0 \<le> depth (nodes g ! k)" by (simp add: depth_counts_def)
    moreover from m k have "depth (nodes g ! k) \<le> maxDepth g" by (simp add: maxDepth_ok_def)
    ultimately show "0 \<le> depth n \<and> depth n \<le> maxDepth g" using n by simp
  qed
  let ?out0 = "replicate (nat (maxDepth g + 1)) [] :: ('a, 'b, 'c) Node list list"
  have "\<forall>n \<in> set (nodes g). 0 \<le> depth n \<and> depth n < int (length ?out0)"
    using rng m0 by auto
  from group_from_ok [OF this] obtain out
    where g: "group_from (nodes g) ?out0 = Inr out" and len: "length out = length ?out0"
      and pt: "\<forall>d < length ?out0.
                 out ! d = ?out0 ! d @ map node (filter (\<lambda>n. depth n = int d) (nodes g))"
      and ms: "mset (concat out) = mset (concat ?out0) + mset (map node (nodes g))"
    by blast
  have res: "groupNodesByDepth g = Inr out" using g m0 by (simp add: groupNodesByDepth_def)
  have len': "length out = nat (maxDepth g + 1)" using len by simp
  have pt': "\<forall>d < length out. out ! d = map node (filter (\<lambda>n. depth n = int d) (nodes g))"
    using pt len by simp
  have c0: "concat ?out0 = []" by (induction "nat (maxDepth g + 1)") simp_all
  have ms': "mset (concat out) = mset (map node (nodes g))" using ms by (simp add: c0)
  have "distinct (map node (nodes g))" by (rule ids_ok_distinct [OF i])
  with ms' have di: "distinct (concat out)" by (metis mset_eq_imp_distinct_iff)
  from rng maxDepth_ok_Max [OF m] res len' pt' ms' di show ?thesis by blast
qed

theorem groupNodesByDepth_partitions_witness:
  "groupNodesByDepth diamond_graph = Inr [[node_d], [node_c], [node_a, node_b]] \<and>
   maxDepth diamond_graph = 2"
proof -
  have "groupNodesByDepth diamond_graph = Inr [[node_d], [node_c], [node_a, node_b]]"
    by (simp add: groupNodesByDepth_def diamond_graph_def index_def numeral_3_eq_3)
  with groupNodesByDepth_partitions [OF diamond_run] show ?thesis
    by (simp add: diamond_graph_def)
qed

end
